theory Spec2Isabelle
  imports Main
begin

section \<open>Documents and the Python primitives the collection engine uses\<close>

text \<open>
  A document is what \<^verbatim>\<open>json.load\<close> returns: \<^verbatim>\<open>None\<close>, a \<^verbatim>\<open>bool\<close>, an \<^verbatim>\<open>int\<close>
  (unbounded), a \<^verbatim>\<open>str\<close>, a \<^verbatim>\<open>list\<close> or a \<^verbatim>\<open>dict\<close> with string keys. A \<^verbatim>\<open>dict\<close> is an
  association list in insertion order, as Python keeps it and as the JSON file shows it.
  JSON numbers with a fraction or an exponent (Python \<^verbatim>\<open>float\<close>) are not part of this
  model: every statement below is about documents, queries and patches without floats.
\<close>

datatype jval =
    JNull
  | JBool bool
  | JInt int
  | JStr string
  | JList "jval list"
  | JObj "(string \<times> jval) list"

type_synonym document = "(string \<times> jval) list"

text \<open>The exceptions of the Python runtime that the engine lets escape.\<close>

datatype py_error = TypeError | KeyError | ReError

subsection \<open>Dictionaries\<close>

text \<open>\<^verbatim>\<open>d[k] = v\<close>: an existing key keeps its place, a new key goes to the end.\<close>

fun dict_set :: "'k \<Rightarrow> 'v \<Rightarrow> ('k \<times> 'v) list \<Rightarrow> ('k \<times> 'v) list" where
  "dict_set k v [] = [(k, v)]"
| "dict_set k v ((k', v') # d) =
     (if k' = k then (k', v) # d else (k', v') # dict_set k v d)"

text \<open>\<^verbatim>\<open>d.update(other)\<close>: every item of \<^verbatim>\<open>other\<close> is stored into \<^verbatim>\<open>d\<close>, in order.\<close>

fun dict_update :: "('k \<times> 'v) list \<Rightarrow> ('k \<times> 'v) list \<Rightarrow> ('k \<times> 'v) list" where
  "dict_update d [] = d"
| "dict_update d ((k, v) # other) = dict_update (dict_set k v d) other"

definition has_key :: "('k \<times> 'v) list \<Rightarrow> 'k \<Rightarrow> bool" where
  "has_key d k = (map_of d k \<noteq> None)"

subsection \<open>Equality, hashing, ordering\<close>

text \<open>
  Python's \<^verbatim>\<open>==\<close> on JSON values. \<^verbatim>\<open>bool\<close> is a subclass of \<^verbatim>\<open>int\<close>, so \<^verbatim>\<open>True == 1\<close>
  and \<^verbatim>\<open>False == 0\<close>; lists compare element by element; dicts compare as mappings
  (same number of keys, and every key of the left one is in the right one with an equal
  value).
\<close>

fun py_eq :: "jval \<Rightarrow> jval \<Rightarrow> bool" where
  "py_eq JNull b = (b = JNull)"
| "py_eq (JBool x) b =
     (case b of JBool y \<Rightarrow> x = y | JInt j \<Rightarrow> (if x then 1 else 0) = j | _ \<Rightarrow> False)"
| "py_eq (JInt i) b =
     (case b of JBool y \<Rightarrow> i = (if y then 1 else 0) | JInt j \<Rightarrow> i = j | _ \<Rightarrow> False)"
| "py_eq (JStr s) b = (b = JStr s)"
| "py_eq (JList xs) b = (case b of JList ys \<Rightarrow> list_all2 py_eq xs ys | _ \<Rightarrow> False)"
| "py_eq (JObj kvs) b =
     (case b of
        JObj kws \<Rightarrow>
          length kvs = length kws \<and>
          list_all (\<lambda>(k, v). case map_of kws k of None \<Rightarrow> False | Some w \<Rightarrow> py_eq v w) kvs
      | _ \<Rightarrow> False)"

text \<open>\<^verbatim>\<open>x in xs\<close> for a list \<^verbatim>\<open>xs\<close>: some element is \<^verbatim>\<open>x\<close> itself or \<^verbatim>\<open>==\<close> to it.\<close>

definition py_mem :: "jval \<Rightarrow> jval list \<Rightarrow> bool" where
  "py_mem x xs = list_ex (\<lambda>y. y = x \<or> py_eq y x) xs"

text \<open>Lists and dicts are unhashable: they cannot be set elements or dict keys.\<close>

fun hashable :: "jval \<Rightarrow> bool" where
  "hashable (JList xs) = False"
| "hashable (JObj kvs) = False"
| "hashable v = True"

text \<open>The value of a \<^verbatim>\<open>bool\<close> or \<^verbatim>\<open>int\<close> as a number; \<^verbatim>\<open>isinstance(v, (int, float))\<close> holds
  exactly where it is defined.\<close>

fun num_of :: "jval \<Rightarrow> int option" where
  "num_of (JBool b) = Some (if b then 1 else 0)"
| "num_of (JInt i) = Some i"
| "num_of v = None"

datatype three_way = Lt | Eq | Gt

definition cmp_int :: "int \<Rightarrow> int \<Rightarrow> three_way" where
  "cmp_int i j = (if i < j then Lt else if i = j then Eq else Gt)"

text \<open>Strings order lexicographically by code point.\<close>

fun cmp_str :: "string \<Rightarrow> string \<Rightarrow> three_way" where
  "cmp_str [] [] = Eq"
| "cmp_str [] (d # t) = Lt"
| "cmp_str (c # s) [] = Gt"
| "cmp_str (c # s) (d # t) =
     (if (of_char c :: nat) < of_char d then Lt
      else if (of_char d :: nat) < of_char c then Gt
      else cmp_str s t)"

text \<open>
  The ordered comparisons \<^verbatim>\<open><\<close>, \<^verbatim>\<open>>\<close>, \<^verbatim>\<open><=\<close>, \<^verbatim>\<open>>=\<close>: numbers (and booleans) compare
  numerically, strings with strings, lists with lists (at the first pair of elements that
  are not \<^verbatim>\<open>==\<close>, else by length); every other pair of types raises \<^verbatim>\<open>TypeError\<close>.
\<close>

function py_cmp :: "jval \<Rightarrow> jval \<Rightarrow> py_error + three_way"
  and py_cmp_list :: "jval list \<Rightarrow> jval list \<Rightarrow> py_error + three_way" where
  "py_cmp a b =
     (case a of
        JList xs \<Rightarrow> (case b of JList ys \<Rightarrow> py_cmp_list xs ys | _ \<Rightarrow> Inl TypeError)
      | JStr s \<Rightarrow> (case b of JStr t \<Rightarrow> Inr (cmp_str s t) | _ \<Rightarrow> Inl TypeError)
      | _ \<Rightarrow>
        (case num_of a of
           None \<Rightarrow> Inl TypeError
         | Some i \<Rightarrow> (case num_of b of None \<Rightarrow> Inl TypeError | Some j \<Rightarrow> Inr (cmp_int i j))))"
| "py_cmp_list [] [] = Inr Eq"
| "py_cmp_list [] (y # ys) = Inr Lt"
| "py_cmp_list (x # xs) [] = Inr Gt"
| "py_cmp_list (x # xs) (y # ys) =
     (if py_eq x y then py_cmp_list xs ys else py_cmp x y)"
  by pat_completeness auto
termination
  by (relation "measure (\<lambda>p. case p of Inl (a, b) \<Rightarrow> size a
                              | Inr (xs, ys) \<Rightarrow> size_list size xs)") auto

definition py_gt :: "jval \<Rightarrow> jval \<Rightarrow> py_error + bool" where
  "py_gt a b = (case py_cmp a b of Inl e \<Rightarrow> Inl e | Inr c \<Rightarrow> Inr (c = Gt))"

definition py_lt :: "jval \<Rightarrow> jval \<Rightarrow> py_error + bool" where
  "py_lt a b = (case py_cmp a b of Inl e \<Rightarrow> Inl e | Inr c \<Rightarrow> Inr (c = Lt))"

definition py_ge :: "jval \<Rightarrow> jval \<Rightarrow> py_error + bool" where
  "py_ge a b = (case py_cmp a b of Inl e \<Rightarrow> Inl e | Inr c \<Rightarrow> Inr (c \<noteq> Lt))"

definition py_le :: "jval \<Rightarrow> jval \<Rightarrow> py_error + bool" where
  "py_le a b = (case py_cmp a b of Inl e \<Rightarrow> Inl e | Inr c \<Rightarrow> Inr (c \<noteq> Gt))"

subsection \<open>Strings: \<^verbatim>\<open>split\<close>, \<^verbatim>\<open>in\<close>, \<^verbatim>\<open>str\<close>\<close>

text \<open>\<^verbatim>\<open>k.split(".")\<close>: never empty; \<^verbatim>\<open>"a..b"\<close> gives \<^verbatim>\<open>["a", "", "b"]\<close>.\<close>

fun split_dot :: "string \<Rightarrow> string list" where
  "split_dot [] = [[]]"
| "split_dot (c # cs) =
     (if c = CHR ''.'' then [] # split_dot cs
      else (case split_dot cs of [] \<Rightarrow> [[c]] | w # ws \<Rightarrow> (c # w) # ws))"

fun starts_with :: "string \<Rightarrow> string \<Rightarrow> bool" where
  "starts_with s [] = True"
| "starts_with [] (d # t) = False"
| "starts_with (c # s) (d # t) = (c = d \<and> starts_with s t)"

text \<open>\<^verbatim>\<open>t in s\<close> for two strings: \<^verbatim>\<open>t\<close> occurs in \<^verbatim>\<open>s\<close>.\<close>

fun str_contains :: "string \<Rightarrow> string \<Rightarrow> bool" where
  "str_contains [] t = (t = [])"
| "str_contains (c # s) t = (starts_with (c # s) t \<or> str_contains s t)"

text \<open>
  \<^verbatim>\<open>val in cond_val\<close>: membership in a list, substring of a string (the left operand
  must be a string), key of a dict (the left operand must be hashable); anything else is
  not iterable.
\<close>

fun py_in :: "jval \<Rightarrow> jval \<Rightarrow> py_error + bool" where
  "py_in v (JList xs) = Inr (py_mem v xs)"
| "py_in v (JStr s) = (case v of JStr t \<Rightarrow> Inr (str_contains s t) | _ \<Rightarrow> Inl TypeError)"
| "py_in v (JObj d) =
     (if hashable v then Inr (case v of JStr k \<Rightarrow> has_key d k | _ \<Rightarrow> False)
      else Inl TypeError)"
| "py_in v c = Inl TypeError"

fun str_nat :: "nat \<Rightarrow> string" where
  "str_nat n =
     (if n < 10 then [char_of (48 + n)]
      else str_nat (n div 10) @ [char_of (48 + n mod 10)])"

definition str_int :: "int \<Rightarrow> string" where
  "str_int i = (if i < 0 then CHR ''-'' # str_nat (nat (- i)) else str_nat (nat i))"

definition hex_digit :: "nat \<Rightarrow> char" where
  "hex_digit n = (if n < 10 then char_of (48 + n) else char_of (87 + n))"

text \<open>
  \<^verbatim>\<open>repr\<close> of a string: single quotes, unless the string has a single quote and no double
  quote; the quote in use and the backslash are escaped, control characters are written
  as \<^verbatim>\<open>\t\<close>, \<^verbatim>\<open>\n\<close>, \<^verbatim>\<open>\r\<close> or \<^verbatim>\<open>\xNN\<close>. A string is its UTF-8 bytes here; a byte from
  0x80 on is copied, which is what \<^verbatim>\<open>repr\<close> does for a printable character.
\<close>

definition repr_char :: "char \<Rightarrow> char \<Rightarrow> string" where
  "repr_char q c =
     (if c = q \<or> c = CHR 0x5C then [CHR 0x5C, c]
      else if c = CHR 0x09 then [CHR 0x5C, CHR ''t'']
      else if c = CHR 0x0A then [CHR 0x5C, CHR ''n'']
      else if c = CHR 0x0D then [CHR 0x5C, CHR ''r'']
      else if (of_char c :: nat) < 32 \<or> (of_char c :: nat) = 127
        then [CHR 0x5C, CHR ''x'', hex_digit (of_char c div 16), hex_digit (of_char c mod 16)]
      else [c])"

definition repr_str :: "string \<Rightarrow> string" where
  "repr_str s =
     (let q = (if CHR 0x27 \<in> set s \<and> CHR 0x22 \<notin> set s then CHR 0x22 else CHR 0x27)
      in q # concat (map (repr_char q) s) @ [q])"

text \<open>\<^verbatim>\<open>sep.join(parts)\<close>.\<close>

fun join :: "string \<Rightarrow> string list \<Rightarrow> string" where
  "join sep [] = []"
| "join sep [x] = x"
| "join sep (x # y # ys) = x @ sep @ join sep (y # ys)"

fun py_repr :: "jval \<Rightarrow> string" where
  "py_repr JNull = ''None''"
| "py_repr (JBool b) = (if b then ''True'' else ''False'')"
| "py_repr (JInt i) = str_int i"
| "py_repr (JStr s) = repr_str s"
| "py_repr (JList xs) = ''['' @ join '', '' (map py_repr xs) @ '']''"
| "py_repr (JObj kvs) =
     ''{'' @ join '', '' (map (\<lambda>(k, v). repr_str k @ '': '' @ py_repr v) kvs) @ ''}''"

text \<open>\<^verbatim>\<open>str(value)\<close>: a string is itself, every other value is its \<^verbatim>\<open>repr\<close>.\<close>

definition py_str :: "jval \<Rightarrow> string" where
  "py_str v = (case v of JStr s \<Rightarrow> s | _ \<Rightarrow> py_repr v)"

section \<open>The collection engine\<close>

text \<open>
  \<^verbatim>\<open>re.search(pattern, string)\<close> belongs to Python's library, not to this repository: the
  engine is given it as a parameter. It answers whether the pattern has a match in the
  string, or raises (\<^verbatim>\<open>re.error\<close> for a pattern that does not compile).
\<close>

type_synonym re_search = "string \<Rightarrow> string \<Rightarrow> py_error + bool"

type_synonym query = "(string \<times> jval) list"

text \<open>An index maps \<^verbatim>\<open>str(value)\<close> to the list of ids; \<^verbatim>\<open>self.indexes\<close> maps a field
  path to its index.\<close>

type_synonym index = "(string \<times> jval list) list"

type_synonym index_map = "(string \<times> index) list"

text \<open>
  The state of an open collection: the document file (every operation loads it, and the
  mutating ones rewrite it) and \<^verbatim>\<open>self.indexes\<close>. The index file is a copy of
  \<^verbatim>\<open>self.indexes\<close> written by every mutating operation, read once when the collection is
  opened.
\<close>

record collection =
  docs :: "document list"
  indexes :: "index_map"

subsection \<open>\<^verbatim>\<open>_match\<close>\<close>

text \<open>
  The inner loop \<^verbatim>\<open>for key in keys\<close> of \<^verbatim>\<open>_match\<close>: \<^verbatim>\<open>val.get(key)\<close> while \<^verbatim>\<open>val\<close> is a
  dict (a missing key gives \<^verbatim>\<open>None\<close>); \<^verbatim>\<open>None\<close> here is the early \<^verbatim>\<open>return False\<close>.
\<close>

fun walk :: "jval \<Rightarrow> string list \<Rightarrow> jval option" where
  "walk val [] = Some val"
| "walk val (key # keys) =
     (case val of
        JObj d \<Rightarrow> walk (case map_of d key of None \<Rightarrow> JNull | Some v \<Rightarrow> v) keys
      | _ \<Rightarrow> None)"

text \<open>
  One operator of an operator document: \<^verbatim>\<open>Inr True\<close> lets the loop go on,
  \<^verbatim>\<open>Inr False\<close> is \<^verbatim>\<open>return False\<close>. An unknown operator passes.
\<close>

definition eval_op :: "re_search \<Rightarrow> string \<Rightarrow> jval \<Rightarrow> jval \<Rightarrow> py_error + bool" where
  "eval_op rs op val cond_val =
     (if op = ''$gt'' then py_gt val cond_val
      else if op = ''$lt'' then py_lt val cond_val
      else if op = ''$gte'' then py_ge val cond_val
      else if op = ''$lte'' then py_le val cond_val
      else if op = ''$in'' then py_in val cond_val
      else if op = ''$regex'' then
        (case cond_val of JStr p \<Rightarrow> rs p (py_str val) | _ \<Rightarrow> Inl TypeError)
      else if op = ''$ne'' then Inr (\<not> py_eq val cond_val)
      else Inr True)"

fun eval_ops :: "re_search \<Rightarrow> jval \<Rightarrow> (string \<times> jval) list \<Rightarrow> py_error + bool" where
  "eval_ops rs val [] = Inr True"
| "eval_ops rs val ((op, cond_val) # ops) =
     (case eval_op rs op val cond_val of
        Inl e \<Rightarrow> Inl e
      | Inr ok \<Rightarrow> if ok then eval_ops rs val ops else Inr False)"

fun match :: "re_search \<Rightarrow> document \<Rightarrow> query \<Rightarrow> py_error + bool" where
  "match rs doc [] = Inr True"
| "match rs doc ((k, v) # q) =
     (case walk (JObj doc) (split_dot k) of
        None \<Rightarrow> Inr False
      | Some val \<Rightarrow>
        (case v of
           JObj ops \<Rightarrow>
             (case eval_ops rs val ops of
                Inl e \<Rightarrow> Inl e
              | Inr ok \<Rightarrow> if ok then match rs doc q else Inr False)
         | _ \<Rightarrow> if py_eq val v then match rs doc q else Inr False))"

text \<open>\<^verbatim>\<open>[doc for doc in data if self._match(doc, query)]\<close>, and with \<^verbatim>\<open>keep = False\<close> the
  comprehension of \<^verbatim>\<open>delete\<close>, \<^verbatim>\<open>if not self._match(doc, query)\<close>.\<close>

fun filter_match :: "re_search \<Rightarrow> bool \<Rightarrow> query \<Rightarrow> document list \<Rightarrow> py_error + document list" where
  "filter_match rs keep q [] = Inr []"
| "filter_match rs keep q (doc # data) =
     (case match rs doc q of
        Inl e \<Rightarrow> Inl e
      | Inr m \<Rightarrow>
        (case filter_match rs keep q data of
           Inl e \<Rightarrow> Inl e
         | Inr rest \<Rightarrow> Inr (if m = keep then doc # rest else rest)))"

subsection \<open>Field resolution for indexes, grouping and aggregation\<close>

text \<open>The loop of \<^verbatim>\<open>_get_nested_value\<close>: \<^verbatim>\<open>val.get(k, {})\<close> on a dict, \<^verbatim>\<open>{}\<close> otherwise.\<close>

fun nested_walk :: "jval \<Rightarrow> string list \<Rightarrow> jval" where
  "nested_walk val [] = val"
| "nested_walk val (k # ks) =
     nested_walk
       (case val of
          JObj d \<Rightarrow> (case map_of d k of None \<Rightarrow> JObj [] | Some v \<Rightarrow> v)
        | _ \<Rightarrow> JObj [])
       ks"

text \<open>The result \<^verbatim>\<open>None\<close> of Python is \<open>JNull\<close>.\<close>

definition get_nested_value :: "document \<Rightarrow> string \<Rightarrow> jval" where
  "get_nested_value doc key =
     (let val = nested_walk (JObj doc) (split_dot key)
      in if \<not> py_eq val (JObj []) then val else JNull)"

subsection \<open>Index maintenance\<close>

text \<open>
  The body of the loop of \<^verbatim>\<open>_update_indexes\<close> for one registered field.
  \<^verbatim>\<open>document["_id"]\<close> raises \<^verbatim>\<open>KeyError\<close> on a document without \<^verbatim>\<open>_id\<close>.
\<close>

definition update_index :: "document \<Rightarrow> string \<Rightarrow> index \<Rightarrow> py_error + index" where
  "update_index document key ix =
     (let v = get_nested_value document key in
      if v \<noteq> JNull then
        (let s = py_str v;
             ix1 = (if \<not> has_key ix s then dict_set s [] ix else ix)
         in case map_of document ''_id'' of
              None \<Rightarrow> Inl KeyError
            | Some i \<Rightarrow>
              (case map_of ix1 s of
                 None \<Rightarrow> Inl KeyError
               | Some bucket \<Rightarrow>
                   if \<not> py_mem i bucket then Inr (dict_set s (bucket @ [i]) ix1) else Inr ix1))
      else Inr ix)"

fun update_indexes :: "document \<Rightarrow> index_map \<Rightarrow> py_error + index_map" where
  "update_indexes document [] = Inr []"
| "update_indexes document ((key, ix) # rest) =
     (case update_index document key ix of
        Inl e \<Rightarrow> Inl e
      | Inr ix' \<Rightarrow>
        (case update_indexes document rest of
           Inl e \<Rightarrow> Inl e
         | Inr rest' \<Rightarrow> Inr ((key, ix') # rest')))"

text \<open>\<^verbatim>\<open>for doc in documents: self._update_indexes(doc)\<close>.\<close>

fun update_indexes_all :: "document list \<Rightarrow> index_map \<Rightarrow> py_error + index_map" where
  "update_indexes_all [] idx = Inr idx"
| "update_indexes_all (doc # documents) idx =
     (case update_indexes doc idx of
        Inl e \<Rightarrow> Inl e
      | Inr idx' \<Rightarrow> update_indexes_all documents idx')"

definition rebuild_indexes :: "index_map \<Rightarrow> document list \<Rightarrow> py_error + index_map" where
  "rebuild_indexes idx documents =
     update_indexes_all documents (map (\<lambda>(key, ix). (key, [])) idx)"

subsection \<open>Index consultation\<close>

text \<open>
  The loop of \<^verbatim>\<open>_query_using_indexes\<close>, with \<^verbatim>\<open>matched_ids\<close> as its state. The Python
  sets are lists here: the callers only ask whether an id is in the result, an
  intersection keeps the ids of the left set that are in the right one, and \<^verbatim>\<open>set(...)\<close>
  raises \<^verbatim>\<open>TypeError\<close> on an unhashable id.
\<close>

fun query_loop :: "index_map \<Rightarrow> query \<Rightarrow> jval list option \<Rightarrow> py_error + jval list option" where
  "query_loop idx [] matched_ids = Inr matched_ids"
| "query_loop idx ((field, v) # q) matched_ids =
     (case v of
        JObj ops \<Rightarrow> Inr None
      | _ \<Rightarrow>
        (case map_of idx field of
           None \<Rightarrow> Inr None
         | Some ix \<Rightarrow>
           if ix \<noteq> [] \<and> has_key ix (py_str v) then
             (case map_of ix (py_str v) of
                None \<Rightarrow> Inl KeyError
              | Some bucket \<Rightarrow>
                  if list_all hashable bucket then
                    query_loop idx q
                      (Some (case matched_ids of
                               None \<Rightarrow> bucket
                             | Some ids \<Rightarrow> filter (\<lambda>i. py_mem i bucket) ids))
                  else Inl TypeError)
           else Inr None))"

definition query_using_indexes :: "index_map \<Rightarrow> query \<Rightarrow> py_error + jval list option" where
  "query_using_indexes idx q = query_loop idx q None"

text \<open>\<^verbatim>\<open>[doc for doc in data if doc["_id"] in indexed_results]\<close>.\<close>

fun filter_ids :: "jval list \<Rightarrow> document list \<Rightarrow> py_error + document list" where
  "filter_ids ids [] = Inr []"
| "filter_ids ids (doc # data) =
     (case map_of doc ''_id'' of
        None \<Rightarrow> Inl KeyError
      | Some i \<Rightarrow>
        (case filter_ids ids data of
           Inl e \<Rightarrow> Inl e
         | Inr rest \<Rightarrow> Inr (if py_mem i ids then doc # rest else rest)))"

text \<open>The first four lines that \<^verbatim>\<open>find\<close> and \<^verbatim>\<open>find_one\<close> share: the documents left to
  scan.\<close>

definition candidates :: "collection \<Rightarrow> query \<Rightarrow> py_error + document list" where
  "candidates c q =
     (case query_using_indexes (indexes c) q of
        Inl e \<Rightarrow> Inl e
      | Inr None \<Rightarrow> Inr (docs c)
      | Inr (Some ids) \<Rightarrow> filter_ids ids (docs c))"

subsection \<open>The public operations\<close>

text \<open>
  \<^verbatim>\<open>insert_one\<close>. \<open>new_id\<close> is what \<^verbatim>\<open>_generate_id\<close> (\<^verbatim>\<open>str(uuid.uuid4())\<close>, a random
  value) returns in this call. The operation mutates the caller's document; the model
  returns it beside the new state.
\<close>

definition insert_one :: "string \<Rightarrow> collection \<Rightarrow> document \<Rightarrow> py_error + collection \<times> document" where
  "insert_one new_id c document =
     (let document' =
            (if \<not> has_key document ''_id'' then dict_set ''_id'' (JStr new_id) document
             else document);
          data = docs c @ [document']
      in case update_indexes document' (indexes c) of
           Inl e \<Rightarrow> Inl e
         | Inr idx \<Rightarrow> Inr (\<lparr>docs = data, indexes = idx\<rparr>, document'))"

definition find :: "re_search \<Rightarrow> collection \<Rightarrow> query \<Rightarrow> py_error + document list" where
  "find rs c q =
     (case candidates c q of
        Inl e \<Rightarrow> Inl e
      | Inr data \<Rightarrow> filter_match rs True q data)"

text \<open>The loop of \<^verbatim>\<open>find_one\<close> stops at the first match: a later document is never
  evaluated.\<close>

fun first_match :: "re_search \<Rightarrow> query \<Rightarrow> document list \<Rightarrow> py_error + document option" where
  "first_match rs q [] = Inr None"
| "first_match rs q (doc # data) =
     (case match rs doc q of
        Inl e \<Rightarrow> Inl e
      | Inr m \<Rightarrow> if m then Inr (Some doc) else first_match rs q data)"

definition find_one :: "re_search \<Rightarrow> collection \<Rightarrow> query \<Rightarrow> py_error + document option" where
  "find_one rs c q =
     (case candidates c q of
        Inl e \<Rightarrow> Inl e
      | Inr data \<Rightarrow> first_match rs q data)"

text \<open>
  The loop of \<^verbatim>\<open>update\<close> over the loaded documents, with \<^verbatim>\<open>self.indexes\<close> as its
  state. An exception of \<^verbatim>\<open>_match\<close> leaves the loop before the file is rewritten; what the
  loop has done to \<^verbatim>\<open>self.indexes\<close> until then stays (the rule \<open>update_raised\<close> of the
  reachable states below).
\<close>

fun update_loop ::
  "re_search \<Rightarrow> query \<Rightarrow> document \<Rightarrow> document list \<Rightarrow> index_map
     \<Rightarrow> py_error + document list \<times> index_map" where
  "update_loop rs q updates [] idx = Inr ([], idx)"
| "update_loop rs q updates (doc # data) idx =
     (case match rs doc q of
        Inl e \<Rightarrow> Inl e
      | Inr m \<Rightarrow>
        if m then
          (let doc' = dict_update doc updates
           in case update_indexes doc' idx of
                Inl e \<Rightarrow> Inl e
              | Inr idx' \<Rightarrow>
                (case update_loop rs q updates data idx' of
                   Inl e \<Rightarrow> Inl e
                 | Inr (data', idx'') \<Rightarrow> Inr (doc' # data', idx'')))
        else
          (case update_loop rs q updates data idx of
             Inl e \<Rightarrow> Inl e
           | Inr (data', idx') \<Rightarrow> Inr (doc # data', idx')))"

definition update :: "re_search \<Rightarrow> collection \<Rightarrow> query \<Rightarrow> document \<Rightarrow> py_error + collection" where
  "update rs c q updates =
     (case update_loop rs q updates (docs c) (indexes c) of
        Inl e \<Rightarrow> Inl e
      | Inr (data, idx) \<Rightarrow> Inr \<lparr>docs = data, indexes = idx\<rparr>)"

definition delete :: "re_search \<Rightarrow> collection \<Rightarrow> query \<Rightarrow> py_error + collection" where
  "delete rs c q =
     (case filter_match rs False q (docs c) of
        Inl e \<Rightarrow> Inl e
      | Inr new_data \<Rightarrow>
        (case rebuild_indexes (indexes c) new_data of
           Inl e \<Rightarrow> Inl e
         | Inr idx \<Rightarrow> Inr \<lparr>docs = new_data, indexes = idx\<rparr>))"

definition create_index :: "collection \<Rightarrow> string \<Rightarrow> py_error + collection" where
  "create_index c field =
     (case update_indexes_all (docs c) (dict_set field [] (indexes c)) of
        Inl e \<Rightarrow> Inl e
      | Inr idx \<Rightarrow> Inr \<lparr>docs = docs c, indexes = idx\<rparr>)"

subsection \<open>Grouping and aggregation\<close>

text \<open>
  \<^verbatim>\<open>grouped[key].append(doc)\<close> on a \<^verbatim>\<open>defaultdict(list)\<close>: the entry whose key is \<^verbatim>\<open>==\<close> to
  \<^verbatim>\<open>key\<close> gets the document, and a key not seen yet opens a new entry at the end.
\<close>

fun group_add :: "jval \<Rightarrow> document \<Rightarrow> (jval \<times> document list) list \<Rightarrow> (jval \<times> document list) list" where
  "group_add key doc [] = [(key, [doc])]"
| "group_add key doc ((k, ds) # grouped) =
     (if py_eq k key then (k, ds @ [doc]) # grouped
      else (k, ds) # group_add key doc grouped)"

text \<open>A dict key has to be hashable: a list or a non-empty dict as the resolved value
  raises \<^verbatim>\<open>TypeError\<close>.\<close>

fun group_loop ::
  "string \<Rightarrow> document list \<Rightarrow> (jval \<times> document list) list
     \<Rightarrow> py_error + (jval \<times> document list) list" where
  "group_loop field [] grouped = Inr grouped"
| "group_loop field (doc # data) grouped =
     (let key = get_nested_value doc field
      in if hashable key then group_loop field data (group_add key doc grouped)
         else Inl TypeError)"

definition group_by :: "collection \<Rightarrow> string \<Rightarrow> py_error + (jval \<times> document list) list" where
  "group_by c field = group_loop field (docs c) []"


text \<open>The list comprehension of \<^verbatim>\<open>aggregate\<close>.\<close>

definition agg_values :: "document list \<Rightarrow> string \<Rightarrow> jval list" where
  "agg_values data field =
     map (\<lambda>doc. get_nested_value doc field)
       (filter (\<lambda>doc. num_of (get_nested_value doc field) \<noteq> None) data)"





subsection \<open>Conditions on the state\<close>

text \<open>Every stored document has an \<^verbatim>\<open>_id\<close>: \<^verbatim>\<open>insert_one\<close> sees to it, and no operation
  removes a key.\<close>

definition has_ids :: "document list \<Rightarrow> bool" where
  "has_ids data = list_all (\<lambda>d. has_key d ''_id'') data"

text \<open>No stored document has the string \<open>i\<close> as its \<^verbatim>\<open>_id\<close>: what is expected of a value
  that \<^verbatim>\<open>uuid.uuid4()\<close> has just drawn.\<close>

definition id_unused :: "string \<Rightarrow> document list \<Rightarrow> bool" where
  "id_unused i data = list_all (\<lambda>d. map_of d ''_id'' \<noteq> Some (JStr i)) data"

text \<open>The ids kept in the buckets are hashable, as the annotation \<^verbatim>\<open>List[str]\<close> of the
  index buckets has it.\<close>

definition index_hashable :: "index \<Rightarrow> bool" where
  "index_hashable ix = list_all (\<lambda>(s, bucket). list_all hashable bucket) ix"

definition ids_hashable :: "index_map \<Rightarrow> bool" where
  "ids_hashable idx = list_all (\<lambda>(field, ix). index_hashable ix) idx"

subsection \<open>The numbers of an aggregation, stated apart from the code\<close>




subsection \<open>Order-comparable values\<close>

text \<open>Two values are order-comparable when Python's ordered comparison of them returns
  instead of raising.\<close>

definition order_comparable :: "jval \<Rightarrow> jval \<Rightarrow> bool" where
  "order_comparable a b = (case py_cmp a b of Inl e \<Rightarrow> False | Inr c \<Rightarrow> True)"

text \<open>The operators of \<^verbatim>\<open>_match\<close> that compare by order.\<close>

definition ordered_ops :: "string list" where
  "ordered_ops = [''$gt'', ''$lt'', ''$gte'', ''$lte'']"

subsection \<open>What a finished grouping is\<close>

text \<open>On hashable values \<^verbatim>\<open>==\<close> is equality up to reading a boolean as 0 or 1.\<close>

definition as_key :: "jval \<Rightarrow> jval" where
  "as_key v = (case v of JBool b \<Rightarrow> JInt (if b then 1 else 0) | _ \<Rightarrow> v)"

text \<open>
  \<open>g\<close> groups the documents \<open>data\<close> by the value at \<open>field\<close>: every entry holds, in their
  order in \<open>data\<close>, exactly the documents whose value is \<^verbatim>\<open>==\<close> to its key, and is not
  empty; every document is under some key; no two keys are \<^verbatim>\<open>==\<close>.
\<close>

definition grouped_for :: "string \<Rightarrow> document list \<Rightarrow> (jval \<times> document list) list \<Rightarrow> bool" where
  "grouped_for field data g =
     ((\<forall>(k, ds) \<in> set g. hashable k \<and> ds \<noteq> [] \<and>
          ds = filter (\<lambda>d. py_eq k (get_nested_value d field)) data)
      \<and> (\<forall>d \<in> set data. \<exists>k \<in> fst ` set g. py_eq k (get_nested_value d field))
      \<and> distinct (map fst g)
      \<and> (\<forall>k \<in> fst ` set g. \<forall>k' \<in> fst ` set g. py_eq k k' \<longrightarrow> k = k'))"

subsection \<open>Plain queries and the bucket of a query value\<close>

text \<open>\<^verbatim>\<open>isinstance(value, dict)\<close>: the query value is an operator document.\<close>

definition is_operator_doc :: "jval \<Rightarrow> bool" where
  "is_operator_doc v = (case v of JObj ops \<Rightarrow> True | _ \<Rightarrow> False)"

definition plain_query :: "query \<Rightarrow> bool" where
  "plain_query q = list_all (\<lambda>(field, v). \<not> is_operator_doc v) q"

text \<open>The bucket \<^verbatim>\<open>self.indexes[field][str(value)]\<close>, when the field is registered and
  its index has that key.\<close>

definition bucket_for :: "index_map \<Rightarrow> string \<Rightarrow> jval \<Rightarrow> jval list option" where
  "bucket_for idx field v =
     (case map_of idx field of None \<Rightarrow> None | Some ix \<Rightarrow> map_of ix (py_str v))"

subsection \<open>Ids of the stored documents, and a sequence of insertions\<close>



subsection \<open>The index invariant, in two halves\<close>

text \<open>
  Complete: the id of a document whose value at an indexed field is not null is in the
  bucket of that value's string.
\<close>

definition entry_ok :: "document \<Rightarrow> string \<Rightarrow> index \<Rightarrow> bool" where
  "entry_ok d field ix =
     (get_nested_value d field = JNull \<or>
      (case map_of d ''_id'' of
         None \<Rightarrow> False
       | Some i \<Rightarrow>
         (case map_of ix (py_str (get_nested_value d field)) of
            None \<Rightarrow> False
          | Some bucket \<Rightarrow> py_mem i bucket)))"

definition complete_for :: "document list \<Rightarrow> index_map \<Rightarrow> bool" where
  "complete_for data idx = list_all (\<lambda>d. list_all (\<lambda>(field, ix). entry_ok d field ix) idx) data"

definition index_complete :: "collection \<Rightarrow> bool" where
  "index_complete c = complete_for (docs c) (indexes c)"

text \<open>
  Exact: every id in a bucket is the id of a stored document whose value at the field is
  not null and has the bucket's key as its string; no bucket keeps the id of a document
  whose value has moved on.
\<close>

definition index_exact :: "collection \<Rightarrow> bool" where
  "index_exact c =
     list_all (\<lambda>(field, ix).
       list_all (\<lambda>(s, bucket).
         list_all (\<lambda>i.
           list_ex (\<lambda>d. map_of d ''_id'' = Some i \<and> get_nested_value d field \<noteq> JNull \<and>
                        py_str (get_nested_value d field) = s)
             (docs c))
           bucket)
         ix)
       (indexes c)"

subsection \<open>Generated ids and reachable states\<close>

text \<open>
  The shape of \<^verbatim>\<open>str(uuid.uuid4())\<close>: 36 characters, lower-case hexadecimal digits with a
  hyphen at the positions 8, 13, 18 and 23.
\<close>

definition uuid_like :: "string \<Rightarrow> bool" where
  "uuid_like i =
     (length i = 36 \<and>
      list_all (\<lambda>(k, ch). if k \<in> {8, 13, 18, 23} then ch = CHR ''-''
                         else ch \<in> set ''0123456789abcdef'')
        (zip [0..<36] i))"

text \<open>Every id in a bucket has the bucket's key as its \<^verbatim>\<open>str\<close>; \<open>id_index_sound\<close> asks it
  of the indexes registered on the field \<^verbatim>\<open>_id\<close>, where the indexed value is the id itself.\<close>

definition keys_match :: "index \<Rightarrow> bool" where
  "keys_match ix = list_all (\<lambda>(s, bucket). list_all (\<lambda>j. py_str j = s) bucket) ix"

definition id_index_sound :: "index_map \<Rightarrow> bool" where
  "id_index_sound idx = list_all (\<lambda>(field, ix). field = ''_id'' \<longrightarrow> keys_match ix) idx"

text \<open>
  The states of a collection that starts empty and goes through the public operations.
  An \<^verbatim>\<open>update\<close> whose \<^verbatim>\<open>_match\<close> raises at some document has not rewritten the file, but
  \<^verbatim>\<open>self.indexes\<close> already holds what the loop did for the documents before it.
\<close>

inductive reachable :: "collection \<Rightarrow> bool" where
  opened: "reachable \<lparr>docs = [], indexes = []\<rparr>"
| inserted: "reachable c \<Longrightarrow> insert_one new_id c document = Inr (c', document') \<Longrightarrow> reachable c'"
| updated: "reachable c \<Longrightarrow> update rs c q updates = Inr c' \<Longrightarrow> reachable c'"
| update_raised:
    "reachable c \<Longrightarrow> update_loop rs q updates (take n (docs c)) (indexes c) = Inr (data, idx) \<Longrightarrow>
     reachable \<lparr>docs = docs c, indexes = idx\<rparr>"
| deleted: "reachable c \<Longrightarrow> delete rs c q = Inr c' \<Longrightarrow> reachable c'"
| indexed: "reachable c \<Longrightarrow> create_index c field = Inr c' \<Longrightarrow> reachable c'"

section \<open>Field resolution: the empty mapping and the absent field\<close>

text \<open>Some values of \<^verbatim>\<open>str\<close>.\<close>

lemma py_str_examples:
  "py_str (JInt 1) = ''1''" "py_str (JStr ''1'') = ''1''" "py_str (JBool True) = ''True''"
  "py_str JNull = ''None''" "py_str (JStr ''None'') = ''None''"
  by code_simp+

lemma walk_nested_walk:
  "walk val ks = Some v \<Longrightarrow> v \<noteq> JNull \<Longrightarrow> nested_walk val ks = v"
proof (induction ks arbitrary: val)
  case Nil
  then show ?case by simp
next
  case (Cons k ks)
  then obtain d where val: "val = JObj d" by (cases val) auto
  show ?case
  proof (cases "map_of d k")
    case None
    with Cons.prems val have "walk JNull ks = Some v" by simp
    with Cons.prems(2) have False by (cases ks) auto
    then show ?thesis ..
  next
    case (Some w)
    with Cons val show ?thesis by simp
  qed
qed

lemma nested_walk_empty [simp]: "nested_walk (JObj []) ks = JObj []"
  by (induction ks) auto

lemma walk_absent_nested:
  "walk val ks = None \<or> walk val ks = Some JNull \<Longrightarrow>
   nested_walk val ks = JNull \<or> nested_walk val ks = JObj []"
proof (induction ks arbitrary: val)
  case Nil
  then show ?case by simp
next
  case (Cons k ks)
  show ?case
  proof (cases val)
    case (JObj d)
    show ?thesis
    proof (cases "map_of d k")
      case None
      with None JObj show ?thesis by simp
    next
      case (Some w)
      with Cons JObj show ?thesis by simp
    qed
  next
  qed (insert Cons, auto)
qed

lemma get_nested_value_empty:
  assumes "walk (JObj doc) (split_dot field) = Some (JObj [])"
  shows "get_nested_value doc field = JNull"
  using walk_nested_walk [OF assms] by (simp add: get_nested_value_def)

lemma get_nested_value_absent:
  assumes "walk (JObj doc) (split_dot field) = None \<or> walk (JObj doc) (split_dot field) = Some JNull"
  shows "get_nested_value doc field = JNull"
  using walk_absent_nested [OF assms] by (auto simp: get_nested_value_def Let_def)

lemma update_index_null:
  "get_nested_value doc field = JNull \<Longrightarrow> update_index doc field ix = Inr ix"
  by (simp add: update_index_def)

lemma agg_values_null:
  "get_nested_value doc field = JNull \<Longrightarrow>
   agg_values (xs @ doc # ys) field = agg_values (xs @ ys) field"
  by (simp add: agg_values_def)

lemma group_loop_null:
  "get_nested_value doc field = JNull \<Longrightarrow>
   group_loop field (doc # data) grouped = group_loop field data (group_add JNull doc grouped)"
  by simp

text \<open>
  Claim C10. A field whose value is the empty mapping \<^verbatim>\<open>{}\<close> is resolved by
  \<^verbatim>\<open>_get_nested_value\<close> to \<^verbatim>\<open>None\<close>, exactly as a field that is absent (or null, or below a
  value that is not a mapping): \<^verbatim>\<open>_update_indexes\<close> adds no index entry for it, the
  comprehension of \<^verbatim>\<open>aggregate\<close> leaves it out, and \<^verbatim>\<open>group_by\<close> files the document under
  the key \<^verbatim>\<open>None\<close>. \<^verbatim>\<open>_match\<close> resolves the path by itself and keeps \<^verbatim>\<open>{}\<close> as a value:
  the query \<^verbatim>\<open>{field: None}\<close> does not match the document with \<^verbatim>\<open>{}\<close>, and matches the
  one where the field is absent.
\<close>

theorem empty_mapping_resolves_like_absent:
  assumes e: "walk (JObj doc) (split_dot field) = Some (JObj [])"
    and a: "walk (JObj doc2) (split_dot field) = None \<or>
            walk (JObj doc2) (split_dot field) = Some JNull"
  shows "get_nested_value doc field = JNull \<and> get_nested_value doc2 field = JNull
    \<and> update_index doc field ix = Inr ix \<and> update_index doc2 field ix = Inr ix
    \<and> agg_values (xs @ doc # ys) field = agg_values (xs @ ys) field
    \<and> agg_values (xs @ doc2 # ys) field = agg_values (xs @ ys) field
    \<and> group_loop field (doc # data) grouped = group_loop field data (group_add JNull doc grouped)
    \<and> group_loop field (doc2 # data) grouped = group_loop field data (group_add JNull doc2 grouped)
    \<and> match rs doc [(field, JNull)] = Inr False
    \<and> (walk (JObj doc2) (split_dot field) = Some JNull \<longrightarrow> match rs doc2 [(field, JNull)] = Inr True)"
proof -
  have g: "get_nested_value doc field = JNull"
    using e by (rule get_nested_value_empty)
  have g2: "get_nested_value doc2 field = JNull"
    using a by (rule get_nested_value_absent)
  have m: "match rs doc [(field, JNull)] = Inr False"
    using e by simp
  have m2: "walk (JObj doc2) (split_dot field) = Some JNull \<longrightarrow> match rs doc2 [(field, JNull)] = Inr True"
    by simp
  show ?thesis
    using g g2 m m2 update_index_null [OF g] update_index_null [OF g2]
      agg_values_null [OF g] agg_values_null [OF g2] group_loop_null [OF g] group_loop_null [OF g2]
    by blast
qed

theorem empty_mapping_resolves_like_absent_witness:
  "walk (JObj [(''a'', JObj [])]) (split_dot ''a'') = Some (JObj [])
   \<and> walk (JObj []) (split_dot ''a'') = Some JNull
   \<and> get_nested_value [(''a'', JObj [])] ''a'' = JNull
   \<and> get_nested_value [] ''a'' = JNull
   \<and> update_index [(''a'', JObj [])] ''a'' [] = Inr []
   \<and> agg_values ([] @ [(''a'', JObj [])] # []) ''a'' = agg_values ([] @ []) ''a''
   \<and> group_loop ''a'' ([(''a'', JObj [])] # []) [] = group_loop ''a'' [] (group_add JNull [(''a'', JObj [])] [])
   \<and> match (\<lambda>p s. Inr True) [(''a'', JObj [])] [(''a'', JNull)] = Inr False
   \<and> match (\<lambda>p s. Inr True) [] [(''a'', JNull)] = Inr True"
proof -
  have e: "walk (JObj [(''a'', JObj [])]) (split_dot ''a'') = Some (JObj [])" by simp
  have a: "walk (JObj []) (split_dot ''a'') = None \<or> walk (JObj []) (split_dot ''a'') = Some JNull"
    by simp
  have a': "walk (JObj []) (split_dot ''a'') = Some JNull" by simp
  show ?thesis
    using empty_mapping_resolves_like_absent [OF e a, of "[]" "[]" "[]" "[]" "[]" "\<lambda>p s. Inr True"] e a'
    by blast
qed

section \<open>Dictionaries and index maintenance\<close>

lemma map_of_dict_set: "map_of (dict_set k v d) = (map_of d)(k \<mapsto> v)"
  by (induction d) (auto simp: fun_eq_iff)

lemma dict_set_new: "map_of d k = None \<Longrightarrow> dict_set k v d = d @ [(k, v)]"
  by (induction d) (auto split: if_splits)

lemma set_dict_set: "set (dict_set k v d) \<subseteq> insert (k, v) (set d)"
  by (induction d) (auto split: if_splits)

lemma py_eq_JStr_right: "py_eq v (JStr s) = (v = JStr s)"
  by (cases v) auto

lemma py_mem_append: "py_mem x (xs @ ys) = (py_mem x xs \<or> py_mem x ys)"
  by (simp add: py_mem_def list_ex_iff) blast

lemma index_hashable_bucket:
  "index_hashable ix \<Longrightarrow> map_of ix s = Some b \<Longrightarrow> list_all hashable b"
  by (auto simp: index_hashable_def list_all_iff dest!: map_of_SomeD)

text \<open>One step of index maintenance on a document that has an id.\<close>

lemma update_index_unfold:
  assumes "map_of doc ''_id'' = Some i" "get_nested_value doc key \<noteq> JNull"
  shows "update_index doc key ix =
     (case map_of ix (py_str (get_nested_value doc key)) of
        None \<Rightarrow> Inr (dict_set (py_str (get_nested_value doc key)) [i]
                       (dict_set (py_str (get_nested_value doc key)) [] ix))
      | Some b \<Rightarrow> Inr (if py_mem i b then ix
                       else dict_set (py_str (get_nested_value doc key)) (b @ [i]) ix))"
  using assms
  by (cases "map_of ix (py_str (get_nested_value doc key))")
     (simp_all add: update_index_def Let_def has_key_def map_of_dict_set py_mem_def)

lemma update_index_Inr:
  assumes "map_of doc ''_id'' = Some i"
  shows "\<exists>ix'. update_index doc key ix = Inr ix'"
proof (cases "get_nested_value doc key = JNull")
  case True
  then show ?thesis by (simp add: update_index_null)
next
  case False
  show ?thesis
    unfolding update_index_unfold [OF assms False] by (simp split: option.split)
qed

lemma update_index_adds:
  assumes "map_of doc ''_id'' = Some i" "get_nested_value doc key \<noteq> JNull"
    and "update_index doc key ix = Inr ix'"
  shows "\<exists>b. map_of ix' (py_str (get_nested_value doc key)) = Some b \<and> py_mem i b"
proof (cases "map_of ix (py_str (get_nested_value doc key))")
  case None
  with assms(3) have "ix' = dict_set (py_str (get_nested_value doc key)) [i]
      (dict_set (py_str (get_nested_value doc key)) [] ix)"
    by (simp add: update_index_unfold [OF assms(1,2)])
  then show ?thesis
    by (simp add: map_of_dict_set py_mem_def)
next
  case (Some b)
  with assms(3) have "ix' = (if py_mem i b then ix
      else dict_set (py_str (get_nested_value doc key)) (b @ [i]) ix)"
    by (simp add: update_index_unfold [OF assms(1,2)])
  then show ?thesis
    using Some by (simp add: map_of_dict_set py_mem_append) (simp add: py_mem_def)
qed

text \<open>All registered fields at once.\<close>

lemma update_indexes_Inr:
  assumes "map_of doc ''_id'' = Some i"
  shows "\<exists>idx'. update_indexes doc idx = Inr idx'"
proof (induction idx)
  case Nil
  show ?case by simp
next
  case (Cons p idx)
  obtain key ix where p: "p = (key, ix)" by (cases p)
  from update_index_Inr [OF assms] obtain ix' where "update_index doc key ix = Inr ix'"
    by blast
  with Cons p show ?case by auto
qed

lemma update_indexes_map_of:
  assumes "update_indexes doc idx = Inr idx'"
  shows "map_of idx' field =
     (case map_of idx field of
        None \<Rightarrow> None
      | Some ix \<Rightarrow> (case update_index doc field ix of Inl e \<Rightarrow> None | Inr ix' \<Rightarrow> Some ix'))"
  using assms
proof (induction idx arbitrary: idx')
  case Nil
  then show ?case by simp
next
  case (Cons p idx)
  obtain key ix where p: "p = (key, ix)" by (cases p)
  from Cons.prems p obtain ix' rest' where
    s: "update_index doc key ix = Inr ix'" "update_indexes doc idx = Inr rest'"
      "idx' = (key, ix') # rest'"
    by (auto split: sum.splits)
  show ?case
    using Cons.IH [OF s(2)] s(1,3) p by simp
qed

lemma update_indexes_keys:
  "update_indexes doc idx = Inr idx' \<Longrightarrow> map fst idx' = map fst idx"
proof (induction idx arbitrary: idx')
  case Nil
  then show ?case by simp
next
  case (Cons p idx)
  then show ?case by (cases p) (auto split: sum.splits)
qed

lemma ids_hashable_Cons:
  "ids_hashable ((key, ix) # idx) = (index_hashable ix \<and> ids_hashable idx)"
  by (simp add: ids_hashable_def)

lemma ids_hashable_lookup:
  "ids_hashable idx \<Longrightarrow> map_of idx field = Some ix \<Longrightarrow> index_hashable ix"
  by (induction idx) (auto simp: ids_hashable_Cons split: if_splits)

text \<open>Scanning.\<close>

lemma filter_ids_has_ids:
  "has_ids data \<Longrightarrow>
   filter_ids ids data =
     Inr (filter (\<lambda>d. case map_of d ''_id'' of None \<Rightarrow> False | Some i \<Rightarrow> py_mem i ids) data)"
  by (induction data) (auto simp: has_ids_def has_key_def)

lemma first_match_last:
  "\<forall>d \<in> set data. match rs d q = Inr False \<Longrightarrow> match rs doc q = Inr True \<Longrightarrow>
   first_match rs q (data @ [doc]) = Inr (Some doc)"
  by (induction data) auto

lemma match_by_id:
  "match rs d [(''_id'', JStr i)] = Inr (map_of d ''_id'' = Some (JStr i))"
  by (cases "map_of d ''_id''") (simp_all add: py_eq_JStr_right)

section \<open>Aggregation\<close>














section \<open>Ordered comparison in the match predicate\<close>

lemma py_cmp_error:
  "py_cmp a b = Inl e \<Longrightarrow> e = TypeError"
  "py_cmp_list xs ys = Inl e \<Longrightarrow> e = TypeError"
proof (induction a b and xs ys rule: py_cmp_py_cmp_list.induct)
  case (1 a b)
  then show ?case
    by (auto split: jval.splits option.splits)
next
  case (5 x xs y ys)
  then show ?case by (auto split: if_splits simp del: py_cmp.simps)
qed simp_all

lemma not_comparable_TypeError:
  "\<not> order_comparable a b \<Longrightarrow> py_cmp a b = Inl TypeError"
  using py_cmp_error(1) [of a b]
  by (cases "py_cmp a b") (auto simp: order_comparable_def simp del: py_cmp.simps)

lemma incomparable_examples:
  "\<not> order_comparable JNull (JInt n)"
  "\<not> order_comparable (JStr s) (JInt n)"
  "\<not> order_comparable (JInt n) (JStr s)"
  "\<not> order_comparable (JObj d) (JObj d')"
  by (simp_all add: order_comparable_def)

lemma eval_op_ordered:
  assumes "op \<in> set ordered_ops" "\<not> order_comparable val c"
  shows "eval_op rs op val c = Inl TypeError"
  using assms(1) not_comparable_TypeError [OF assms(2)]
  by (auto simp: ordered_ops_def eval_op_def py_gt_def py_lt_def py_ge_def py_le_def
      simp del: py_cmp.simps)

lemma eval_ops_raises:
  "(op, c) \<in> set ops \<Longrightarrow> eval_op rs op val c = Inl e \<Longrightarrow> eval_ops rs val ops \<noteq> Inr True"
  by (induction ops) (auto split: sum.splits if_splits)

lemma match_clause_fails:
  assumes "(k, JObj ops) \<in> set q"
    and "\<forall>val. walk (JObj doc) (split_dot k) = Some val \<longrightarrow> eval_ops rs val ops \<noteq> Inr True"
  shows "match rs doc q \<noteq> Inr True"
  using assms
proof (induction q)
  case Nil
  then show ?case by simp
next
  case (Cons p q)
  obtain k' v where p: "p = (k', v)" by (cases p)
  show ?case
  proof (cases "p = (k, JObj ops)")
    case True
    with Cons.prems(2) show ?thesis
      by (auto split: option.splits sum.splits if_splits)
  next
    case False
    with Cons have "match rs doc q \<noteq> Inr True" by auto
    then show ?thesis
      unfolding p by (auto split: option.splits jval.splits sum.splits if_splits)
  qed
qed

text \<open>
  Claim C8, as amended. A query has a clause that applies \<^verbatim>\<open>$gt\<close>, \<^verbatim>\<open>$lt\<close>, \<^verbatim>\<open>$gte\<close> or
  \<^verbatim>\<open>$lte\<close> to a resolved value and an operand that are not order-comparable. Then \<^verbatim>\<open>_match\<close>
  never returns a match. It raises Python's \<^verbatim>\<open>TypeError\<close> when the evaluation reaches that
  operator (always so when the clause is the whole query and the path resolves), and it
  returns \<^verbatim>\<open>False\<close> without an error when the path runs into a value that is not a mapping;
  in a longer query an earlier clause may have ended the evaluation before.
\<close>

theorem incomparable_clause_never_matches:
  assumes clause: "(k, JObj ops) \<in> set q"
    and operator: "(op, c) \<in> set ops"
    and ordered: "op \<in> set ordered_ops"
    and incomparable: "\<forall>val. walk (JObj doc) (split_dot k) = Some val \<longrightarrow> \<not> order_comparable val c"
  shows "match rs doc q \<noteq> Inr True \<and>
    match rs doc [(k, JObj [(op, c)])] =
      (if walk (JObj doc) (split_dot k) = None then Inr False else Inl TypeError)"
proof -
  have "\<forall>val. walk (JObj doc) (split_dot k) = Some val \<longrightarrow> eval_ops rs val ops \<noteq> Inr True"
  proof (intro allI impI)
    fix val
    assume "walk (JObj doc) (split_dot k) = Some val"
    with incomparable have "\<not> order_comparable val c" by blast
    from eval_op_ordered [OF ordered this]
    have "eval_op rs op val c = Inl TypeError" .
    with operator show "eval_ops rs val ops \<noteq> Inr True"
      by (rule eval_ops_raises)
  qed
  with clause have 1: "match rs doc q \<noteq> Inr True"
    by (rule match_clause_fails)
  have 2: "match rs doc [(k, JObj [(op, c)])] =
      (if walk (JObj doc) (split_dot k) = None then Inr False else Inl TypeError)"
  proof (cases "walk (JObj doc) (split_dot k)")
    case None
    then show ?thesis by simp
  next
    case (Some val)
    with incomparable have "\<not> order_comparable val c" by blast
    from eval_op_ordered [OF ordered this] Some show ?thesis by simp
  qed
  from 1 2 show ?thesis ..
qed

theorem incomparable_clause_never_matches_witness:
  "walk (JObj [(''age'', JNull)]) (split_dot ''age'') = Some JNull
   \<and> \<not> order_comparable JNull (JInt 18)
   \<and> match (\<lambda>p s. Inr True) [(''age'', JNull)]
        [(''name'', JObj [(''$ne'', JStr ''Bob'')]), (''age'', JObj [(''$ne'', JInt 3), (''$gt'', JInt 18)])]
      \<noteq> Inr True
   \<and> match (\<lambda>p s. Inr True) [(''age'', JNull)] [(''age'', JObj [(''$gt'', JInt 18)])] = Inl TypeError"
proof -
  have w: "walk (JObj [(''age'', JNull)]) (split_dot ''age'') = Some JNull" by simp
  have n: "\<not> order_comparable JNull (JInt 18)" by (simp add: order_comparable_def)
  have i: "\<forall>val. walk (JObj [(''age'', JNull)]) (split_dot ''age'') = Some val
      \<longrightarrow> \<not> order_comparable val (JInt 18)"
    using n unfolding w by simp
  have c: "(''age'', JObj [(''$ne'', JInt 3), (''$gt'', JInt 18)])
      \<in> set [(''name'', JObj [(''$ne'', JStr ''Bob'')]), (''age'', JObj [(''$ne'', JInt 3), (''$gt'', JInt 18)])]"
    by simp
  have o: "(''$gt'', JInt 18) \<in> set [(''$ne'', JInt 3), (''$gt'', JInt 18)]" by simp
  have r: "''$gt'' \<in> set ordered_ops" by (simp add: ordered_ops_def)
  from incomparable_clause_never_matches [OF c o r i, of "\<lambda>p s. Inr True"] w n
  show ?thesis by simp
qed

text \<open>
  Claim C8 as stated: the evaluation fails with a controlled condition and never raises
  an uncontrolled error. The code raises \<^verbatim>\<open>TypeError\<close> out of \<^verbatim>\<open>_match\<close> (first line), and
  with an incomparable clause in the query it can also return \<^verbatim>\<open>False\<close> with no error at
  all: after an earlier clause that fails (second line), or when the path meets a value
  that is not a mapping (third line).
\<close>

theorem incomparable_clause_counterexample:
  "match (\<lambda>p s. Inr True) [(''age'', JNull)] [(''age'', JObj [(''$gt'', JInt 18)])] = Inl TypeError
   \<and> match (\<lambda>p s. Inr True) [(''name'', JStr ''Bob''), (''age'', JStr ''old'')]
        [(''name'', JStr ''Alice''), (''age'', JObj [(''$gt'', JInt 18)])] = Inr False
   \<and> match (\<lambda>p s. Inr True) [(''age'', JInt 40)] [(''age.years'', JObj [(''$gt'', JInt 18)])] = Inr False"
  by (simp add: eval_op_def py_gt_def)

section \<open>Grouping\<close>

lemma py_eq_hashable: "hashable a \<Longrightarrow> hashable b \<Longrightarrow> py_eq a b = (as_key a = as_key b)"
  by (cases a; cases b) (auto simp: as_key_def)

lemma group_add_miss:
  "\<forall>p \<in> set g. \<not> py_eq (fst p) v \<Longrightarrow> group_add v d g = g @ [(v, [d])]"
  by (induction g) auto

lemma group_add_hit:
  assumes "distinct (map fst g)" "(k, ds) \<in> set g" "py_eq k v"
    and "\<forall>p \<in> set g. py_eq (fst p) v \<longrightarrow> fst p = k"
  shows "set (group_add v d g) = insert (k, ds @ [d]) (set g - {(k, ds)}) \<and>
    map fst (group_add v d g) = map fst g"
  using assms
proof (induction g)
  case Nil
  then show ?case by simp
next
  case (Cons p g)
  obtain k' ds' where p: "p = (k', ds')" by (cases p)
  show ?case
  proof (cases "py_eq k' v")
    case True
    with Cons.prems(4) p have kk: "k' = k" by simp
    with Cons.prems(1,2) p have "ds' = ds" "(k, ds) \<notin> set g"
      by (auto simp: image_iff)
    with True kk p show ?thesis by auto
  next
    case False
    with Cons.prems(2,3) p have in_g: "(k, ds) \<in> set g" by auto
    from Cons.prems(1) p have ne: "(k', ds') \<notin> set g" by (auto simp: image_iff)
    from Cons.IH [OF _ in_g Cons.prems(3)] Cons.prems(1,4)
    have ih: "set (group_add v d g) = insert (k, ds @ [d]) (set g - {(k, ds)})"
      "map fst (group_add v d g) = map fst g"
      by simp_all
    from False Cons.prems(3) have "k' \<noteq> k" by auto
    with False p ih ne show ?thesis by auto
  qed
qed

lemma grouped_for_hashable:
  assumes "grouped_for field data g" "d \<in> set data"
  shows "hashable (get_nested_value d field)"
proof -
  from assms obtain p where p: "p \<in> set g" "py_eq (fst p) (get_nested_value d field)"
    by (auto simp: grouped_for_def)
  with assms(1) have "hashable (fst p)" by (auto simp: grouped_for_def)
  with p(2) show ?thesis
    by (cases "fst p"; cases "get_nested_value d field") auto
qed

lemma grouped_for_entry:
  assumes "grouped_for field data g" "(k, ds) \<in> set g"
  shows "hashable k" "ds \<noteq> []" "ds = filter (\<lambda>d. py_eq k (get_nested_value d field)) data"
  using assms by (auto simp: grouped_for_def)

lemma grouped_for_covers:
  assumes "grouped_for field data g" "d \<in> set data"
  obtains k ds where "(k, ds) \<in> set g" "py_eq k (get_nested_value d field)"
proof -
  from assms have "\<exists>k \<in> fst ` set g. py_eq k (get_nested_value d field)"
    by (simp add: grouped_for_def)
  then obtain p where "p \<in> set g" "py_eq (fst p) (get_nested_value d field)" by auto
  then show ?thesis using that [of "fst p" "snd p"] by simp
qed

lemma grouped_for_unique:
  assumes "grouped_for field data g" "(k, ds) \<in> set g" "(k', ds') \<in> set g" "py_eq k k'"
  shows "k = k'" "ds = ds'"
proof -
  from assms(1) have u: "\<forall>k \<in> fst ` set g. \<forall>k' \<in> fst ` set g. py_eq k k' \<longrightarrow> k = k'"
    and di: "distinct (map fst g)"
    by (simp_all add: grouped_for_def)
  from assms(2,3) have "k \<in> fst ` set g" "k' \<in> fst ` set g" by force+
  with u assms(4) show "k = k'" by blast
  with di assms(2,3) show "ds = ds'" by (auto dest: eq_key_imp_eq_value)
qed

lemma grouped_for_step:
  assumes g: "grouped_for field data g" and h: "hashable (get_nested_value d field)"
  shows "grouped_for field (data @ [d]) (group_add (get_nested_value d field) d g)"
proof -
  let ?v = "get_nested_value d field"
  let ?key = "\<lambda>d. get_nested_value d field"
  let ?g = "group_add ?v d g"
  have refl: "py_eq ?v ?v" using h by (simp add: py_eq_hashable)
  have dist: "distinct (map fst g)" using g by (simp add: grouped_for_def)
  have sym: "py_eq ?v k = py_eq k ?v" if "(k, ds) \<in> set g" for k ds
    using grouped_for_entry(1) [OF g that] h by (auto simp: py_eq_hashable)
  have trans: "py_eq k (?key d') = py_eq ?v (?key d')"
    if "(k, ds) \<in> set g" "py_eq k ?v" "d' \<in> set data" for k ds d'
    using grouped_for_entry(1) [OF g that(1)] h grouped_for_hashable [OF g that(3)] that(2)
    by (simp add: py_eq_hashable)
  show ?thesis
  proof (cases "\<exists>p \<in> set g. py_eq (fst p) ?v")
    case False
    then have miss: "\<And>k ds. (k, ds) \<in> set g \<Longrightarrow> \<not> py_eq k ?v" by force
    have ga: "?g = g @ [(?v, [d])]"
      using False by (intro group_add_miss) blast
    have none: "filter (\<lambda>d'. py_eq ?v (?key d')) data = []"
    proof (rule ccontr)
      assume "filter (\<lambda>d'. py_eq ?v (?key d')) data \<noteq> []"
      then obtain d' where d': "d' \<in> set data" "py_eq ?v (?key d')"
        by (auto simp: filter_empty_conv)
      from grouped_for_covers [OF g d'(1)] obtain k ds where
        k: "(k, ds) \<in> set g" "py_eq k (?key d')" .
      have "py_eq k ?v"
        using grouped_for_entry(1) [OF g k(1)] h grouped_for_hashable [OF g d'(1)] k(2) d'(2)
        by (simp add: py_eq_hashable)
      with miss [OF k(1)] show False ..
    qed
    have 1: "\<forall>(k', ds') \<in> set ?g. hashable k' \<and> ds' \<noteq> [] \<and>
          ds' = filter (\<lambda>d. py_eq k' (?key d)) (data @ [d])"
    proof (intro ballI)
      fix p assume "p \<in> set ?g"
      then consider "p \<in> set g" | "p = (?v, [d])" unfolding ga by auto
      then show "case p of (k', ds') \<Rightarrow> hashable k' \<and> ds' \<noteq> [] \<and>
          ds' = filter (\<lambda>d. py_eq k' (?key d)) (data @ [d])"
      proof cases
        case 1
        obtain k' ds' where p: "p = (k', ds')" by (cases p)
        from grouped_for_entry [OF g 1 [unfolded p]] miss [OF 1 [unfolded p]] p
        show ?thesis by simp
      next
        case 2
        with h none refl show ?thesis by simp
      qed
    qed
    have 2: "\<forall>d' \<in> set (data @ [d]). \<exists>k' \<in> fst ` set ?g. py_eq k' (?key d')"
    proof (intro ballI)
      fix d' assume "d' \<in> set (data @ [d])"
      then consider "d' \<in> set data" | "d' = d" by auto
      then show "\<exists>k' \<in> fst ` set ?g. py_eq k' (?key d')"
      proof cases
        case 1
        from grouped_for_covers [OF g 1] obtain k ds where
          k: "(k, ds) \<in> set g" "py_eq k (?key d')" .
        then have "k \<in> fst ` set ?g" unfolding ga by force
        with k(2) show ?thesis by blast
      next
        case 2
        have "?v \<in> fst ` set ?g" unfolding ga by simp
        with refl 2 show ?thesis by blast
      qed
    qed
    have fresh: "?v \<notin> fst ` set g"
    proof
      assume "?v \<in> fst ` set g"
      then obtain ds where "(?v, ds) \<in> set g" by force
      from miss [OF this] refl show False ..
    qed
    have 3: "distinct (map fst ?g)"
      unfolding ga using dist fresh by simp
    have 4: "\<forall>k \<in> fst ` set ?g. \<forall>k' \<in> fst ` set ?g. py_eq k k' \<longrightarrow> k = k'"
    proof (intro ballI impI)
      fix k k' assume kk: "k \<in> fst ` set ?g" "k' \<in> fst ` set ?g" "py_eq k k'"
      from kk(1) consider ds where "(k, ds) \<in> set g" | "k = ?v" unfolding ga by force
      then show "k = k'"
      proof cases
        case 1
        from kk(2) consider ds' where "(k', ds') \<in> set g" | "k' = ?v" unfolding ga by force
        then show ?thesis
        proof cases
          case 1
          from grouped_for_unique(1) [OF g \<open>(k, ds) \<in> set g\<close> 1 kk(3)] show ?thesis .
        next
          case 2
          with miss [OF \<open>(k, ds) \<in> set g\<close>] kk(3) show ?thesis by simp
        qed
      next
        case 2
        from kk(2) consider ds' where "(k', ds') \<in> set g" | "k' = ?v" unfolding ga by force
        then show ?thesis
        proof cases
          case 1
          with miss [OF 1] sym [OF 1] kk(3) 2 show ?thesis by simp
        next
          case 2
          with \<open>k = ?v\<close> show ?thesis by simp
        qed
      qed
    qed
    from 1 2 3 4 show ?thesis unfolding grouped_for_def by blast
  next
    case True
    then obtain k ds where kd: "(k, ds) \<in> set g" "py_eq k ?v" by auto
    have hk: "hashable k" using grouped_for_entry(1) [OF g kd(1)] .
    have uniq: "\<forall>p \<in> set g. py_eq (fst p) ?v \<longrightarrow> fst p = k"
    proof (intro ballI impI)
      fix p assume p: "p \<in> set g" "py_eq (fst p) ?v"
      obtain k' ds' where pp: "p = (k', ds')" by (cases p)
      have "hashable k'" using grouped_for_entry(1) [OF g p(1) [unfolded pp]] .
      with p(2) kd(2) hk h pp have "py_eq k' k" by (simp add: py_eq_hashable)
      from grouped_for_unique(1) [OF g p(1) [unfolded pp] kd(1) this] pp
      show "fst p = k" by simp
    qed
    from group_add_hit [OF dist kd uniq]
    have ga: "set ?g = insert (k, ds @ [d]) (set g - {(k, ds)})"
      "map fst ?g = map fst g"
      by simp_all
    have keys: "fst ` set ?g = fst ` set g"
      using ga(2) by (metis set_map)
    have 1: "\<forall>(k', ds') \<in> set ?g. hashable k' \<and> ds' \<noteq> [] \<and>
          ds' = filter (\<lambda>d. py_eq k' (?key d)) (data @ [d])"
    proof (intro ballI)
      fix p assume "p \<in> set ?g"
      then consider "p = (k, ds @ [d])" | "p \<in> set g" "p \<noteq> (k, ds)" unfolding ga by auto
      then show "case p of (k', ds') \<Rightarrow> hashable k' \<and> ds' \<noteq> [] \<and>
          ds' = filter (\<lambda>d. py_eq k' (?key d)) (data @ [d])"
      proof cases
        case 1
        with grouped_for_entry [OF g kd(1)] kd(2) show ?thesis by simp
      next
        case 2
        obtain k' ds' where p: "p = (k', ds')" by (cases p)
        have "\<not> py_eq k' ?v"
        proof
          assume "py_eq k' ?v"
          with uniq 2(1) p have "k' = k" by force
          with dist 2(1) kd(1) p have "ds' = ds" by (auto dest: eq_key_imp_eq_value)
          with \<open>k' = k\<close> p 2(2) show False by simp
        qed
        with grouped_for_entry [OF g 2(1) [unfolded p]] p show ?thesis by simp
      qed
    qed
    have 2: "\<forall>d' \<in> set (data @ [d]). \<exists>k' \<in> fst ` set ?g. py_eq k' (?key d')"
    proof (intro ballI)
      fix d' assume "d' \<in> set (data @ [d])"
      then consider "d' \<in> set data" | "d' = d" by auto
      then show "\<exists>k' \<in> fst ` set ?g. py_eq k' (?key d')"
      proof cases
        case 1
        from grouped_for_covers [OF g 1] obtain k' ds' where
          k: "(k', ds') \<in> set g" "py_eq k' (?key d')" .
        then have "k' \<in> fst ` set g" by force
        with k(2) show ?thesis unfolding keys by blast
      next
        case 2
        from kd(1) have "k \<in> fst ` set g" by force
        with kd(2) 2 show ?thesis unfolding keys by blast
      qed
    qed
    have 3: "distinct (map fst ?g)"
      unfolding ga(2) by (rule dist)
    have 4: "\<forall>k \<in> fst ` set ?g. \<forall>k' \<in> fst ` set ?g. py_eq k k' \<longrightarrow> k = k'"
      unfolding keys using g unfolding grouped_for_def by blast
    from 1 2 3 4 show ?thesis unfolding grouped_for_def by blast
  qed
qed

lemma group_loop_grouped_for:
  "grouped_for field pre g \<Longrightarrow> \<forall>d \<in> set data. hashable (get_nested_value d field) \<Longrightarrow>
   \<exists>g'. group_loop field data g = Inr g' \<and> grouped_for field (pre @ data) g'"
proof (induction data arbitrary: pre g)
  case Nil
  then show ?case by simp
next
  case (Cons d data)
  from Cons.prems have h: "hashable (get_nested_value d field)" by simp
  from grouped_for_step [OF Cons.prems(1) h]
  have "grouped_for field (pre @ [d]) (group_add (get_nested_value d field) d g)" .
  from Cons.IH [OF this] Cons.prems(2) h show ?case by simp
qed

lemma grouped_for_empty: "grouped_for field [] []"
  by (simp add: grouped_for_def)

text \<open>
  Claim C4, as amended. When every resolved value at the field path is hashable (no list,
  no non-empty mapping), \<^verbatim>\<open>group_by\<close> partitions the document set by the resolved value
  itself, compared with \<^verbatim>\<open>==\<close> and not stringified: each group holds exactly the documents
  whose value equals its key, in their original order; every document is in a group; no
  two keys are equal; and the documents whose value is null, absent or \<^verbatim>\<open>{}\<close> are in the
  group of the key \<^verbatim>\<open>None\<close>.
\<close>

theorem group_by_partitions_by_value:
  assumes "\<forall>d \<in> set (docs c). hashable (get_nested_value d field)"
  shows "\<exists>g. group_by c field = Inr g
     \<and> (\<forall>(k, ds) \<in> set g. ds \<noteq> [] \<and>
           ds = filter (\<lambda>d. py_eq k (get_nested_value d field)) (docs c))
     \<and> (\<forall>d \<in> set (docs c). \<exists>k \<in> fst ` set g. py_eq k (get_nested_value d field))
     \<and> distinct (map fst g)
     \<and> (\<forall>k \<in> fst ` set g. \<forall>k' \<in> fst ` set g. py_eq k k' \<longrightarrow> k = k')
     \<and> (\<forall>d \<in> set (docs c). get_nested_value d field = JNull \<longrightarrow>
           (\<exists>ds. (JNull, ds) \<in> set g \<and> d \<in> set ds))"
proof -
  from group_loop_grouped_for [OF grouped_for_empty assms]
  obtain g where g: "group_by c field = Inr g" "grouped_for field (docs c) g"
    by (auto simp: group_by_def)
  have null: "\<forall>d \<in> set (docs c). get_nested_value d field = JNull \<longrightarrow>
           (\<exists>ds. (JNull, ds) \<in> set g \<and> d \<in> set ds)"
  proof (intro ballI impI)
    fix d assume d: "d \<in> set (docs c)" "get_nested_value d field = JNull"
    from grouped_for_covers [OF g(2) d(1)] obtain k ds where
      k: "(k, ds) \<in> set g" "py_eq k (get_nested_value d field)" .
    from k(2) d(2) have "k = JNull" by (cases k) auto
    moreover from grouped_for_entry(3) [OF g(2) k(1)] k(2) d(1) have "d \<in> set ds" by simp
    ultimately show "\<exists>ds. (JNull, ds) \<in> set g \<and> d \<in> set ds" using k(1) by blast
  qed
  from g(2) have "(\<forall>(k, ds) \<in> set g. ds \<noteq> [] \<and>
           ds = filter (\<lambda>d. py_eq k (get_nested_value d field)) (docs c))
     \<and> (\<forall>d \<in> set (docs c). \<exists>k \<in> fst ` set g. py_eq k (get_nested_value d field))
     \<and> distinct (map fst g)
     \<and> (\<forall>k \<in> fst ` set g. \<forall>k' \<in> fst ` set g. py_eq k k' \<longrightarrow> k = k')"
    unfolding grouped_for_def by fast
  with g(1) null show ?thesis by blast
qed

theorem group_by_partitions_by_value_witness:
  "list_all (\<lambda>d. hashable (get_nested_value d ''group''))
     [[(''name'', JStr ''Frank''), (''group'', JStr ''A'')],
      [(''name'', JStr ''Heidi''), (''group'', JStr ''B'')],
      [(''name'', JStr ''Ivan'')],
      [(''name'', JStr ''Grace''), (''group'', JStr ''A'')],
      [(''name'', JStr ''Judy''), (''group'', JObj [])]]
   \<and> group_by
       \<lparr>docs = [[(''name'', JStr ''Frank''), (''group'', JStr ''A'')],
                [(''name'', JStr ''Heidi''), (''group'', JStr ''B'')],
                [(''name'', JStr ''Ivan'')],
                [(''name'', JStr ''Grace''), (''group'', JStr ''A'')],
                [(''name'', JStr ''Judy''), (''group'', JObj [])]],
        indexes = []\<rparr> ''group''
     = Inr [(JStr ''A'', [[(''name'', JStr ''Frank''), (''group'', JStr ''A'')],
                          [(''name'', JStr ''Grace''), (''group'', JStr ''A'')]]),
            (JStr ''B'', [[(''name'', JStr ''Heidi''), (''group'', JStr ''B'')]]),
            (JNull, [[(''name'', JStr ''Ivan'')],
                     [(''name'', JStr ''Judy''), (''group'', JObj [])]])]"
proof -
  let ?data = "[[(''name'', JStr ''Frank''), (''group'', JStr ''A'')],
                [(''name'', JStr ''Heidi''), (''group'', JStr ''B'')],
                [(''name'', JStr ''Ivan'')],
                [(''name'', JStr ''Grace''), (''group'', JStr ''A'')],
                [(''name'', JStr ''Judy''), (''group'', JObj [])]]"
  have h: "list_all (\<lambda>d. hashable (get_nested_value d ''group'')) ?data"
    by (simp add: get_nested_value_def)
  then have a: "\<forall>d \<in> set (docs \<lparr>docs = ?data, indexes = []\<rparr>).
      hashable (get_nested_value d ''group'')"
    by (simp add: list_all_iff)
  have e: "group_by \<lparr>docs = ?data, indexes = []\<rparr> ''group''
     = Inr [(JStr ''A'', [[(''name'', JStr ''Frank''), (''group'', JStr ''A'')],
                          [(''name'', JStr ''Grace''), (''group'', JStr ''A'')]]),
            (JStr ''B'', [[(''name'', JStr ''Heidi''), (''group'', JStr ''B'')]]),
            (JNull, [[(''name'', JStr ''Ivan'')],
                     [(''name'', JStr ''Judy''), (''group'', JObj [])]])]"
    by (simp add: group_by_def get_nested_value_def Let_def)
  from group_by_partitions_by_value [OF a] h e show ?thesis by blast
qed

text \<open>
  Claim C4 as stated groups by the stringified value. The code keeps 1 and \<^verbatim>\<open>"1"\<close> apart
  although both stringify to \<^verbatim>\<open>"1"\<close>, puts \<^verbatim>\<open>True\<close> and 1 together although they stringify
  differently, and raises \<^verbatim>\<open>TypeError\<close> on a list.
\<close>

theorem group_by_stringified_counterexample:
  "group_by \<lparr>docs = [[(''g'', JInt 1)], [(''g'', JStr ''1'')]], indexes = []\<rparr> ''g''
     = Inr [(JInt 1, [[(''g'', JInt 1)]]), (JStr ''1'', [[(''g'', JStr ''1'')]])]
   \<and> py_str (get_nested_value [(''g'', JInt 1)] ''g'') = ''1''
   \<and> py_str (get_nested_value [(''g'', JStr ''1'')] ''g'') = ''1''
   \<and> group_by \<lparr>docs = [[(''g'', JBool True)], [(''g'', JInt 1)]], indexes = []\<rparr> ''g''
     = Inr [(JBool True, [[(''g'', JBool True)], [(''g'', JInt 1)]])]
   \<and> py_str (get_nested_value [(''g'', JBool True)] ''g'') = ''True''
   \<and> group_by \<lparr>docs = [[(''g'', JList [JInt 1])]], indexes = []\<rparr> ''g'' = Inl TypeError"
proof -
  have g: "get_nested_value [(''g'', JInt 1)] ''g'' = JInt 1"
    "get_nested_value [(''g'', JStr ''1'')] ''g'' = JStr ''1''"
    "get_nested_value [(''g'', JBool True)] ''g'' = JBool True"
    "get_nested_value [(''g'', JList [JInt 1])] ''g'' = JList [JInt 1]"
    by (simp_all add: get_nested_value_def)
  show ?thesis
    by (simp add: group_by_def g py_str_examples Let_def)
qed

section \<open>Index consultation\<close>

lemma py_eq_or_same:
  assumes "hashable j"
  shows "(j = i \<or> py_eq j i) = (hashable i \<and> as_key j = as_key i)"
proof (cases "hashable i")
  case True
  with assms show ?thesis by (auto simp: py_eq_hashable)
next
  case False
  with assms show ?thesis by (cases j; cases i) auto
qed

lemma py_mem_hashable:
  assumes "list_all hashable b"
  shows "py_mem i b = (hashable i \<and> as_key i \<in> as_key ` set b)"
proof -
  have "py_mem i b = (\<exists>j \<in> set b. hashable i \<and> as_key j = as_key i)"
    using assms by (auto simp: py_mem_def list_ex_iff list_all_iff py_eq_or_same)
  also have "\<dots> = (hashable i \<and> as_key i \<in> as_key ` set b)"
    by (metis image_iff)
  finally show ?thesis .
qed

lemma bucket_for_hashable:
  "ids_hashable idx \<Longrightarrow> bucket_for idx field v = Some b \<Longrightarrow> list_all hashable b"
  by (auto simp: bucket_for_def split: option.splits
      dest: ids_hashable_lookup index_hashable_bucket)

lemma query_loop_step:
  assumes "\<not> is_operator_doc v" "bucket_for idx field v = Some b" "list_all hashable b"
  shows "query_loop idx ((field, v) # q) m =
     query_loop idx q (Some (case m of None \<Rightarrow> b | Some ids \<Rightarrow> filter (\<lambda>i. py_mem i b) ids))"
proof -
  from assms(2) obtain ix where ix: "map_of idx field = Some ix" "map_of ix (py_str v) = Some b"
    by (auto simp: bucket_for_def split: option.splits)
  then have "ix \<noteq> []" by auto
  with ix assms(1,3) show ?thesis
    by (cases v) (simp_all add: is_operator_doc_def has_key_def)
qed

lemma query_loop_skip:
  assumes "bucket_for idx field v = None"
  shows "query_loop idx ((field, v) # q) m = Inr None"
  using assms
  by (cases v; cases "map_of idx field")
     (auto simp: bucket_for_def has_key_def split: option.splits)

lemma py_mem_filter:
  assumes "list_all hashable ids" "list_all hashable b"
  shows "py_mem i (filter (\<lambda>j. py_mem j b) ids) = (py_mem i ids \<and> py_mem i b)"
proof -
  let ?f = "filter (\<lambda>j. py_mem j b) ids"
  have f: "list_all hashable ?f"
    using assms(1) by (simp add: list_all_iff)
  have s: "set ?f = {j \<in> set ids. as_key j \<in> as_key ` set b}"
    using assms(1) by (auto simp: py_mem_hashable [OF assms(2)] list_all_iff)
  have "(as_key i \<in> as_key ` set ?f)
      = (as_key i \<in> as_key ` set ids \<and> as_key i \<in> as_key ` set b)"
    unfolding s by (auto simp: image_iff) metis
  with py_mem_hashable [OF f, of i] py_mem_hashable [OF assms(1), of i]
    py_mem_hashable [OF assms(2), of i]
  show ?thesis by blast
qed

lemma query_loop_intersects:
  assumes "plain_query q" "ids_hashable idx"
    and "\<forall>(field, v) \<in> set q. bucket_for idx field v \<noteq> None"
    and "list_all hashable ids0"
  shows "\<exists>ids. query_loop idx q (Some ids0) = Inr (Some ids) \<and> list_all hashable ids \<and>
    (\<forall>i. py_mem i ids =
       (py_mem i ids0 \<and> (\<forall>(field, v) \<in> set q. \<exists>b. bucket_for idx field v = Some b \<and> py_mem i b)))"
  using assms(1,3,4)
proof (induction q arbitrary: ids0)
  case Nil
  then show ?case by simp
next
  case (Cons p q)
  obtain field v where p: "p = (field, v)" by (cases p)
  from Cons.prems(1) p have pl: "\<not> is_operator_doc v" "plain_query q"
    by (simp_all add: plain_query_def)
  from Cons.prems(2) p obtain b where b: "bucket_for idx field v = Some b" by auto
  have hb: "list_all hashable b" using assms(2) b by (rule bucket_for_hashable)
  let ?ids = "filter (\<lambda>i. py_mem i b) ids0"
  have h: "list_all hashable ?ids" using Cons.prems(3) by (simp add: list_all_iff)
  have rest: "\<forall>(field, v) \<in> set q. bucket_for idx field v \<noteq> None"
    using Cons.prems(2) by simp
  from Cons.IH [OF pl(2) rest h] obtain ids where
    ids: "query_loop idx q (Some ?ids) = Inr (Some ids)" "list_all hashable ids"
      "\<forall>i. py_mem i ids =
         (py_mem i ?ids \<and> (\<forall>(field, v) \<in> set q. \<exists>b. bucket_for idx field v = Some b \<and> py_mem i b))"
    by blast
  have "query_loop idx (p # q) (Some ids0) = Inr (Some ids)"
    unfolding p query_loop_step [OF pl(1) b hb] using ids(1) by simp
  moreover have "\<forall>i. py_mem i ids =
       (py_mem i ids0 \<and> (\<forall>(field, v) \<in> set (p # q). \<exists>b. bucket_for idx field v = Some b \<and> py_mem i b))"
    using ids(3) b p by (auto simp: py_mem_filter [OF Cons.prems(3) hb])
  ultimately show ?case using ids(2) by blast
qed

lemma query_loop_falls_back:
  assumes "plain_query q" "ids_hashable idx"
    and "\<exists>(field, v) \<in> set q. bucket_for idx field v = None"
  shows "query_loop idx q m = Inr None"
  using assms(1,3)
proof (induction q arbitrary: m)
  case Nil
  then show ?case by simp
next
  case (Cons p q)
  obtain field v where p: "p = (field, v)" by (cases p)
  from Cons.prems(1) p have pl: "\<not> is_operator_doc v" "plain_query q"
    by (simp_all add: plain_query_def)
  show ?case
  proof (cases "bucket_for idx field v")
    case None
    then show ?thesis unfolding p by (rule query_loop_skip)
  next
    case (Some b)
    have hb: "list_all hashable b" using assms(2) Some by (rule bucket_for_hashable)
    from Some Cons.prems(2) p have "\<exists>(field, v) \<in> set q. bucket_for idx field v = None"
      by auto
    from Cons.IH [OF pl(2) this] show ?thesis
      unfolding p query_loop_step [OF pl(1) Some hb] .
  qed
qed

text \<open>
  Claim C5, as amended. The query has plain values only and the buckets hold hashable
  ids. If every field of the (non-empty) query has a bucket for its stringified value, the
  candidates are the intersection of these buckets: an id is among them exactly when it
  is in every bucket. If some field has no bucket (no index on the field, an empty index,
  or no such key in it), the consultation returns \<^verbatim>\<open>None\<close>: it is skipped, and \<^verbatim>\<open>find\<close> is
  the full scan of the document set.
\<close>

theorem index_consultation:
  assumes plain: "plain_query q" and hash: "ids_hashable (indexes c)"
  shows "(q \<noteq> [] \<and> (\<forall>(field, v) \<in> set q. bucket_for (indexes c) field v \<noteq> None) \<longrightarrow>
      (\<exists>ids. query_using_indexes (indexes c) q = Inr (Some ids) \<and>
         (\<forall>i. py_mem i ids =
            (\<forall>(field, v) \<in> set q. \<exists>b. bucket_for (indexes c) field v = Some b \<and> py_mem i b))))
    \<and> ((\<exists>(field, v) \<in> set q. bucket_for (indexes c) field v = None) \<longrightarrow>
      query_using_indexes (indexes c) q = Inr None \<and>
      find rs c q = filter_match rs True q (docs c))"
proof (intro conjI impI)
  assume a: "q \<noteq> [] \<and> (\<forall>(field, v) \<in> set q. bucket_for (indexes c) field v \<noteq> None)"
  then obtain field v q' where q: "q = (field, v) # q'" by (cases q) auto
  from plain q have pl: "\<not> is_operator_doc v" "plain_query q'"
    by (simp_all add: plain_query_def)
  from a q obtain b where b: "bucket_for (indexes c) field v = Some b" by auto
  have hb: "list_all hashable b" using hash b by (rule bucket_for_hashable)
  from a q have rest: "\<forall>(field, v) \<in> set q'. bucket_for (indexes c) field v \<noteq> None" by simp
  from query_loop_intersects [OF pl(2) hash rest hb] obtain ids where
    ids: "query_loop (indexes c) q' (Some b) = Inr (Some ids)"
      "\<forall>i. py_mem i ids =
         (py_mem i b \<and> (\<forall>(field, v) \<in> set q'. \<exists>b. bucket_for (indexes c) field v = Some b \<and> py_mem i b))"
    by blast
  have "query_using_indexes (indexes c) q = Inr (Some ids)"
    unfolding query_using_indexes_def q query_loop_step [OF pl(1) b hb] using ids(1) by simp
  moreover have "\<forall>i. py_mem i ids =
      (\<forall>(field, v) \<in> set q. \<exists>b. bucket_for (indexes c) field v = Some b \<and> py_mem i b)"
    using ids(2) b q by auto
  ultimately show "\<exists>ids. query_using_indexes (indexes c) q = Inr (Some ids) \<and>
         (\<forall>i. py_mem i ids =
            (\<forall>(field, v) \<in> set q. \<exists>b. bucket_for (indexes c) field v = Some b \<and> py_mem i b))"
    by blast
next
  assume a: "\<exists>(field, v) \<in> set q. bucket_for (indexes c) field v = None"
  from query_loop_falls_back [OF plain hash a]
  show "query_using_indexes (indexes c) q = Inr None"
    by (simp add: query_using_indexes_def)
  then show "find rs c q = filter_match rs True q (docs c)"
    by (simp add: find_def candidates_def)
qed

theorem index_consultation_witness:
  "plain_query [(''city'', JStr ''Paris''), (''age'', JInt 30)]
   \<and> ids_hashable
        [(''city'', [(''Paris'', [JStr ''1'', JStr ''2'']), (''Rome'', [JStr ''3''])]),
         (''age'', [(''30'', [JStr ''1'', JStr ''3'']), (''25'', [JStr ''2''])])]
   \<and> bucket_for
        [(''city'', [(''Paris'', [JStr ''1'', JStr ''2'']), (''Rome'', [JStr ''3''])]),
         (''age'', [(''30'', [JStr ''1'', JStr ''3'']), (''25'', [JStr ''2''])])]
        ''city'' (JStr ''Paris'') = Some [JStr ''1'', JStr ''2'']
   \<and> bucket_for
        [(''city'', [(''Paris'', [JStr ''1'', JStr ''2'']), (''Rome'', [JStr ''3''])]),
         (''age'', [(''30'', [JStr ''1'', JStr ''3'']), (''25'', [JStr ''2''])])]
        ''age'' (JInt 30) = Some [JStr ''1'', JStr ''3'']
   \<and> query_using_indexes
        [(''city'', [(''Paris'', [JStr ''1'', JStr ''2'']), (''Rome'', [JStr ''3''])]),
         (''age'', [(''30'', [JStr ''1'', JStr ''3'']), (''25'', [JStr ''2''])])]
        [(''city'', JStr ''Paris''), (''age'', JInt 30)] = Inr (Some [JStr ''1''])
   \<and> plain_query [(''city'', JStr ''Oslo'')]
   \<and> bucket_for
        [(''city'', [(''Paris'', [JStr ''1'', JStr ''2'']), (''Rome'', [JStr ''3''])]),
         (''age'', [(''30'', [JStr ''1'', JStr ''3'']), (''25'', [JStr ''2''])])]
        ''city'' (JStr ''Oslo'') = None
   \<and> query_using_indexes
        [(''city'', [(''Paris'', [JStr ''1'', JStr ''2'']), (''Rome'', [JStr ''3''])]),
         (''age'', [(''30'', [JStr ''1'', JStr ''3'']), (''25'', [JStr ''2''])])]
        [(''city'', JStr ''Oslo'')] = Inr None
   \<and> find (\<lambda>p s. Inr True)
        \<lparr>docs = [[(''_id'', JStr ''1''), (''city'', JStr ''Paris''), (''age'', JInt 30)],
                 [(''_id'', JStr ''2''), (''city'', JStr ''Paris''), (''age'', JInt 25)],
                 [(''_id'', JStr ''3''), (''city'', JStr ''Rome''), (''age'', JInt 30)]],
         indexes =
           [(''city'', [(''Paris'', [JStr ''1'', JStr ''2'']), (''Rome'', [JStr ''3''])]),
            (''age'', [(''30'', [JStr ''1'', JStr ''3'']), (''25'', [JStr ''2''])])]\<rparr>
        [(''city'', JStr ''Oslo'')]
      = filter_match (\<lambda>p s. Inr True) True [(''city'', JStr ''Oslo'')]
          [[(''_id'', JStr ''1''), (''city'', JStr ''Paris''), (''age'', JInt 30)],
           [(''_id'', JStr ''2''), (''city'', JStr ''Paris''), (''age'', JInt 25)],
           [(''_id'', JStr ''3''), (''city'', JStr ''Rome''), (''age'', JInt 30)]]"
proof -
  let ?idx = "[(''city'', [(''Paris'', [JStr ''1'', JStr ''2'']), (''Rome'', [JStr ''3''])]),
         (''age'', [(''30'', [JStr ''1'', JStr ''3'']), (''25'', [JStr ''2''])])]"
  let ?data = "[[(''_id'', JStr ''1''), (''city'', JStr ''Paris''), (''age'', JInt 30)],
                 [(''_id'', JStr ''2''), (''city'', JStr ''Paris''), (''age'', JInt 25)],
                 [(''_id'', JStr ''3''), (''city'', JStr ''Rome''), (''age'', JInt 30)]]"
  let ?c = "\<lparr>docs = ?data, indexes = ?idx\<rparr>"
  have s30: "py_str (JInt 30) = ''30''" by code_simp
  have p1: "plain_query [(''city'', JStr ''Paris''), (''age'', JInt 30)]"
    by (simp add: plain_query_def is_operator_doc_def)
  have p2: "plain_query [(''city'', JStr ''Oslo'')]"
    by (simp add: plain_query_def is_operator_doc_def)
  have h: "ids_hashable (indexes ?c)"
    by (simp add: ids_hashable_def index_hashable_def)
  have b1: "bucket_for ?idx ''city'' (JStr ''Paris'') = Some [JStr ''1'', JStr ''2'']"
    by (simp add: bucket_for_def py_str_def)
  have b2: "bucket_for ?idx ''age'' (JInt 30) = Some [JStr ''1'', JStr ''3'']"
    by (simp add: bucket_for_def s30)
  have b3: "bucket_for ?idx ''city'' (JStr ''Oslo'') = None"
    by (simp add: bucket_for_def py_str_def)
  have q1: "query_using_indexes ?idx [(''city'', JStr ''Paris''), (''age'', JInt 30)]
      = Inr (Some [JStr ''1''])"
    by (simp add: query_using_indexes_def has_key_def s30 py_mem_def) (simp add: py_str_def)
  from index_consultation [OF p2 h, of "\<lambda>p s. Inr True"] b3
  have "query_using_indexes ?idx [(''city'', JStr ''Oslo'')] = Inr None \<and>
      find (\<lambda>p s. Inr True) ?c [(''city'', JStr ''Oslo'')]
        = filter_match (\<lambda>p s. Inr True) True [(''city'', JStr ''Oslo'')] ?data"
    by simp
  with index_consultation [OF p1 h, of "\<lambda>p s. Inr True"] p1 p2 h b1 b2 b3 q1
  show ?thesis by simp
qed

text \<open>
  Claim C5 as stated: a query value without a bucket gives "no match". Here the index on
  \<^verbatim>\<open>a\<close>, as \<^verbatim>\<open>create_index\<close> builds it, has no bucket for \<^verbatim>\<open>str(None)\<close>; the consultation
  is skipped and the full scan finds the document without the field.
\<close>

theorem index_consultation_counterexample:
  "create_index
     \<lparr>docs = [[(''_id'', JStr ''1''), (''a'', JStr ''x'')], [(''_id'', JStr ''2'')]],
      indexes = []\<rparr> ''a''
     = Inr \<lparr>docs = [[(''_id'', JStr ''1''), (''a'', JStr ''x'')], [(''_id'', JStr ''2'')]],
            indexes = [(''a'', [(''x'', [JStr ''1''])])]\<rparr>
   \<and> query_using_indexes [(''a'', [(''x'', [JStr ''1''])])] [(''a'', JNull)] = Inr None
   \<and> find (\<lambda>p s. Inr True)
        \<lparr>docs = [[(''_id'', JStr ''1''), (''a'', JStr ''x'')], [(''_id'', JStr ''2'')]],
         indexes = [(''a'', [(''x'', [JStr ''1''])])]\<rparr>
        [(''a'', JNull)]
     = Inr [[(''_id'', JStr ''2'')]]"
proof -
  have n: "py_str JNull = ''None''" by code_simp
  have g: "get_nested_value [(''_id'', JStr ''1''), (''a'', JStr ''x'')] ''a'' = JStr ''x''"
    "get_nested_value [(''_id'', JStr ''2'')] ''a'' = JNull"
    by (simp_all add: get_nested_value_def)
  have q: "query_using_indexes [(''a'', [(''x'', [JStr ''1''])])] [(''a'', JNull)] = Inr None"
    by (simp add: query_using_indexes_def has_key_def n)
  show ?thesis
    using q
    by (simp add: create_index_def update_index_def g has_key_def py_mem_def py_str_def
        find_def candidates_def)
qed

section \<open>Deleting with a query that matches nothing\<close>

lemma filter_match_none:
  "filter_match rs True q data = Inr [] \<Longrightarrow> filter_match rs False q data = Inr data"
proof (induction data)
  case Nil
  then show ?case by simp
next
  case (Cons d data)
  then show ?case by (auto split: sum.splits if_splits)
qed

lemma update_indexes_all_Inr:
  "has_ids data \<Longrightarrow> \<exists>idx'. update_indexes_all data idx = Inr idx'"
proof (induction data arbitrary: idx)
  case Nil
  then show ?case by simp
next
  case (Cons d data)
  from Cons.prems obtain i where i: "map_of d ''_id'' = Some i" and rest: "has_ids data"
    by (auto simp: has_ids_def has_key_def)
  from update_indexes_Inr [OF i] obtain idx1 where "update_indexes d idx = Inr idx1" by blast
  with Cons.IH [OF rest, of idx1] show ?case by simp
qed

lemma update_indexes_all_keys:
  "update_indexes_all data idx = Inr idx' \<Longrightarrow> map fst idx' = map fst idx"
proof (induction data arbitrary: idx)
  case Nil
  then show ?case by simp
next
  case (Cons d data)
  then show ?case
    by (auto split: sum.splits dest: update_indexes_keys)
qed

lemma cleared_by_keys:
  "map (\<lambda>(key, ix). (key, [])) idx = map (\<lambda>key. (key, [])) (map fst idx)"
  by (induction idx) auto

lemma rebuild_indexes_keys_cong:
  "map fst idx = map fst idx' \<Longrightarrow> rebuild_indexes idx data = rebuild_indexes idx' data"
  by (simp add: rebuild_indexes_def cleared_by_keys)

lemma rebuild_indexes_keys:
  "rebuild_indexes idx data = Inr idx' \<Longrightarrow> map fst idx' = map fst idx"
  by (auto simp: rebuild_indexes_def cleared_by_keys comp_def dest!: update_indexes_all_keys)

text \<open>
  Claim C6, as amended. \<^verbatim>\<open>delete\<close> with a query that matches no document leaves the
  document set and the registered fields unchanged, and puts in place of every index its
  rebuild from the document set. So the indexes stay as they are exactly when they were
  equal to that rebuild already; and the state after the call is left unchanged by the
  same call again.
\<close>

theorem delete_without_match:
  assumes zero: "filter_match rs True q (docs c) = Inr []" and ids: "has_ids (docs c)"
  shows "\<exists>c'. delete rs c q = Inr c' \<and> docs c' = docs c
     \<and> map fst (indexes c') = map fst (indexes c)
     \<and> rebuild_indexes (indexes c) (docs c) = Inr (indexes c')
     \<and> (c' = c) = (rebuild_indexes (indexes c) (docs c) = Inr (indexes c))
     \<and> delete rs c' q = Inr c'"
proof -
  from update_indexes_all_Inr [OF ids] obtain idx' where
    r: "rebuild_indexes (indexes c) (docs c) = Inr idx'"
    unfolding rebuild_indexes_def by blast
  let ?c = "\<lparr>docs = docs c, indexes = idx'\<rparr>"
  have keep: "filter_match rs False q (docs c) = Inr (docs c)"
    using zero by (rule filter_match_none)
  have d: "delete rs c q = Inr ?c"
    using keep r by (simp add: delete_def)
  have k: "map fst idx' = map fst (indexes c)"
    using r by (rule rebuild_indexes_keys)
  have again: "rebuild_indexes idx' (docs c) = Inr idx'"
    using rebuild_indexes_keys_cong [OF k, of "docs c"] r by simp
  have d2: "delete rs ?c q = Inr ?c"
    using keep again by (simp add: delete_def)
  have e: "(?c = c) = (rebuild_indexes (indexes c) (docs c) = Inr (indexes c))"
    using r by (cases c) auto
  from d k r e d2 show ?thesis by (intro exI [of _ ?c]) simp
qed

theorem delete_without_match_witness:
  "filter_match (\<lambda>p s. Inr True) True [(''a'', JStr ''z'')]
     [[(''_id'', JStr ''1''), (''a'', JStr ''x'')], [(''_id'', JStr ''2''), (''a'', JStr ''x'')]]
     = Inr []
   \<and> has_ids [[(''_id'', JStr ''1''), (''a'', JStr ''x'')], [(''_id'', JStr ''2''), (''a'', JStr ''x'')]]
   \<and> rebuild_indexes [(''a'', [(''x'', [JStr ''1'', JStr ''2''])])]
        [[(''_id'', JStr ''1''), (''a'', JStr ''x'')], [(''_id'', JStr ''2''), (''a'', JStr ''x'')]]
     = Inr [(''a'', [(''x'', [JStr ''1'', JStr ''2''])])]
   \<and> delete (\<lambda>p s. Inr True)
        \<lparr>docs = [[(''_id'', JStr ''1''), (''a'', JStr ''x'')],
                 [(''_id'', JStr ''2''), (''a'', JStr ''x'')]],
         indexes = [(''a'', [(''x'', [JStr ''1'', JStr ''2''])])]\<rparr>
        [(''a'', JStr ''z'')]
     = Inr \<lparr>docs = [[(''_id'', JStr ''1''), (''a'', JStr ''x'')],
                    [(''_id'', JStr ''2''), (''a'', JStr ''x'')]],
            indexes = [(''a'', [(''x'', [JStr ''1'', JStr ''2''])])]\<rparr>"
proof -
  let ?data = "[[(''_id'', JStr ''1''), (''a'', JStr ''x'')],
                [(''_id'', JStr ''2''), (''a'', JStr ''x'')]]"
  let ?c = "\<lparr>docs = ?data, indexes = [(''a'', [(''x'', [JStr ''1'', JStr ''2''])])]\<rparr>"
  have z: "filter_match (\<lambda>p s. Inr True) True [(''a'', JStr ''z'')] (docs ?c) = Inr []"
    by simp
  have i: "has_ids (docs ?c)"
    by (simp add: has_ids_def has_key_def)
  have g: "get_nested_value [(''_id'', JStr ''1''), (''a'', JStr ''x'')] ''a'' = JStr ''x''"
    "get_nested_value [(''_id'', JStr ''2''), (''a'', JStr ''x'')] ''a'' = JStr ''x''"
    by (simp_all add: get_nested_value_def)
  have r: "rebuild_indexes (indexes ?c) (docs ?c) = Inr (indexes ?c)"
    by (simp add: rebuild_indexes_def update_index_def g has_key_def py_mem_def py_str_def)
  from delete_without_match [OF z i] r z i show ?thesis
    by auto
qed

text \<open>
  Claim C6 as stated, for every state: after an \<^verbatim>\<open>update\<close> has moved a document to another
  value (first equation), the old bucket still holds its id, and a \<^verbatim>\<open>delete\<close> that matches
  nothing rebuilds the index without it.
\<close>

theorem delete_without_match_counterexample:
  "update (\<lambda>p s. Inr True)
     \<lparr>docs = [[(''_id'', JStr ''1''), (''a'', JStr ''x'')]],
      indexes = [(''a'', [(''x'', [JStr ''1''])])]\<rparr>
     [] [(''a'', JStr ''y'')]
     = Inr \<lparr>docs = [[(''_id'', JStr ''1''), (''a'', JStr ''y'')]],
            indexes = [(''a'', [(''x'', [JStr ''1'']), (''y'', [JStr ''1''])])]\<rparr>
   \<and> filter_match (\<lambda>p s. Inr True) True [(''a'', JStr ''z'')]
        [[(''_id'', JStr ''1''), (''a'', JStr ''y'')]] = Inr []
   \<and> delete (\<lambda>p s. Inr True)
        \<lparr>docs = [[(''_id'', JStr ''1''), (''a'', JStr ''y'')]],
         indexes = [(''a'', [(''x'', [JStr ''1'']), (''y'', [JStr ''1''])])]\<rparr>
        [(''a'', JStr ''z'')]
     = Inr \<lparr>docs = [[(''_id'', JStr ''1''), (''a'', JStr ''y'')]],
            indexes = [(''a'', [(''y'', [JStr ''1''])])]\<rparr>"
proof -
  have g: "get_nested_value [(''_id'', JStr ''1''), (''a'', JStr ''y'')] ''a'' = JStr ''y''"
    by (simp add: get_nested_value_def)
  show ?thesis
    by (simp add: update_def delete_def rebuild_indexes_def update_index_def g has_key_def
        py_mem_def py_str_def)
qed

lemma update_indexes_all_append:
  "update_indexes_all (xs @ ys) idx =
     (case update_indexes_all xs idx of Inl e \<Rightarrow> Inl e | Inr idx1 \<Rightarrow> update_indexes_all ys idx1)"
  by (induction xs arbitrary: idx) (auto split: sum.splits)

text \<open>An insertion keeps the indexes equal to their rebuild.\<close>

lemma insert_one_keeps_rebuilt:
  assumes "rebuild_indexes (indexes c) (docs c) = Inr (indexes c)"
    and "insert_one i c d = Inr (c', d')"
  shows "rebuild_indexes (indexes c') (docs c') = Inr (indexes c')"
proof -
  from assms(2) have c': "docs c' = docs c @ [d']" "update_indexes d' (indexes c) = Inr (indexes c')"
    by (auto simp: insert_one_def Let_def split: sum.splits)
  have "map fst (indexes c') = map fst (indexes c)"
    using c'(2) by (rule update_indexes_keys)
  then have "rebuild_indexes (indexes c') (docs c') = rebuild_indexes (indexes c) (docs c')"
    by (rule rebuild_indexes_keys_cong)
  also have "\<dots> = Inr (indexes c')"
    using assms(1) c'(2) unfolding c'(1) rebuild_indexes_def update_indexes_all_append
    by simp
  finally show ?thesis .
qed

section \<open>Document ids\<close>






lemma filter_match_filter:
  "filter_match rs keep q data = Inr data' \<Longrightarrow>
   data' = filter (\<lambda>d. match rs d q = Inr keep) data"
proof (induction data arbitrary: data')
  case Nil
  then show ?case by simp
next
  case (Cons d data)
  then show ?case by (auto split: sum.splits if_splits)
qed




section \<open>Index and scan\<close>

lemma match_plain_total:
  "plain_query q \<Longrightarrow> \<exists>b. match rs d q = Inr b"
proof (induction q)
  case Nil
  show ?case by auto
next
  case (Cons p q)
  obtain k v where p: "p = (k, v)" by (cases p)
  from Cons.prems p have "\<not> is_operator_doc v" "plain_query q"
    by (simp_all add: plain_query_def)
  with Cons.IH p show ?case
    by (cases v) (auto simp: is_operator_doc_def split: option.splits)
qed

lemma filter_match_plain:
  assumes "plain_query q"
  shows "filter_match rs True q data = Inr (filter (\<lambda>d. match rs d q = Inr True) data)"
proof (induction data)
  case Nil
  show ?case by simp
next
  case (Cons d data)
  from match_plain_total [OF assms, of rs d] obtain b where "match rs d q = Inr b" by blast
  with Cons show ?case by simp
qed

lemma query_using_indexes_plain:
  assumes "plain_query q" "ids_hashable idx"
  shows "\<exists>r. query_using_indexes idx q = Inr r"
proof (cases "\<exists>(field, v) \<in> set q. bucket_for idx field v = None")
  case True
  from query_loop_falls_back [OF assms True] show ?thesis
    by (simp add: query_using_indexes_def)
next
  case False
  show ?thesis
  proof (cases q)
    case Nil
    then show ?thesis by (simp add: query_using_indexes_def)
  next
    case (Cons p q')
    obtain field v where p: "p = (field, v)" by (cases p)
    from assms(1) Cons p have pl: "\<not> is_operator_doc v" "plain_query q'"
      by (simp_all add: plain_query_def)
    from False Cons p obtain b where b: "bucket_for idx field v = Some b" by auto
    have hb: "list_all hashable b" using assms(2) b by (rule bucket_for_hashable)
    from False Cons have rest: "\<forall>(field, v) \<in> set q'. bucket_for idx field v \<noteq> None" by auto
    from query_loop_intersects [OF pl(2) assms(2) rest hb]
    show ?thesis
      unfolding query_using_indexes_def Cons p query_loop_step [OF pl(1) b hb] by auto
  qed
qed

text \<open>With plain values in the query, what \<^verbatim>\<open>find\<close> returns with whatever indexes is a
  selection, in order, from what the full scan returns: an index adds and reorders
  nothing.\<close>

lemma find_selects_from_scan:
  assumes "plain_query q" "has_ids (docs c)" "ids_hashable (indexes c)"
  shows "\<exists>P. find rs c q = Inr (filter P (filter (\<lambda>d. match rs d q = Inr True) (docs c)))"
proof -
  from query_using_indexes_plain [OF assms(1,3)] obtain r where
    r: "query_using_indexes (indexes c) q = Inr r" by blast
  show ?thesis
  proof (cases r)
    case None
    with r have "find rs c q = Inr (filter (\<lambda>d. True) (filter (\<lambda>d. match rs d q = Inr True) (docs c)))"
      by (simp add: find_def candidates_def filter_match_plain [OF assms(1)])
    then show ?thesis by blast
  next
    case (Some ids)
    let ?P = "\<lambda>d. case map_of d ''_id'' of None \<Rightarrow> False | Some i \<Rightarrow> py_mem i ids"
    from r Some have "find rs c q = Inr (filter ?P (filter (\<lambda>d. match rs d q = Inr True) (docs c)))"
      by (simp add: find_def candidates_def filter_ids_has_ids [OF assms(2)]
          filter_match_plain [OF assms(1)] conj_commute)
    then show ?thesis by blast
  qed
qed

text \<open>
  Claim C1. \<^verbatim>\<open>find\<close> is to return the same result with and without an index on the
  queried field. At the inputs below it does not. Two documents hold \<^verbatim>\<open>True\<close> and 1 at
  \<^verbatim>\<open>a\<close>; both are \<^verbatim>\<open>==\<close> to the query value 1 and the scan returns both, but the index built
  by \<^verbatim>\<open>create_index("a")\<close> files them under \<^verbatim>\<open>"True"\<close> and \<^verbatim>\<open>"1"\<close>, and \<^verbatim>\<open>find\<close> then returns
  only the second. And with a document whose value is the string \<^verbatim>\<open>"None"\<close>, the query
  \<^verbatim>\<open>{"a": None}\<close> finds the documents without the field by scan and nothing once the index
  exists.
\<close>

theorem find_with_index_loses_match:
  "find (\<lambda>p s. Inr True)
     \<lparr>docs = [[(''_id'', JStr ''1''), (''a'', JBool True)], [(''_id'', JStr ''2''), (''a'', JInt 1)]],
      indexes = []\<rparr> [(''a'', JInt 1)]
     = Inr [[(''_id'', JStr ''1''), (''a'', JBool True)], [(''_id'', JStr ''2''), (''a'', JInt 1)]]
   \<and> create_index
        \<lparr>docs = [[(''_id'', JStr ''1''), (''a'', JBool True)], [(''_id'', JStr ''2''), (''a'', JInt 1)]],
         indexes = []\<rparr> ''a''
     = Inr \<lparr>docs = [[(''_id'', JStr ''1''), (''a'', JBool True)], [(''_id'', JStr ''2''), (''a'', JInt 1)]],
            indexes = [(''a'', [(''True'', [JStr ''1'']), (''1'', [JStr ''2''])])]\<rparr>
   \<and> find (\<lambda>p s. Inr True)
        \<lparr>docs = [[(''_id'', JStr ''1''), (''a'', JBool True)], [(''_id'', JStr ''2''), (''a'', JInt 1)]],
         indexes = [(''a'', [(''True'', [JStr ''1'']), (''1'', [JStr ''2''])])]\<rparr> [(''a'', JInt 1)]
     = Inr [[(''_id'', JStr ''2''), (''a'', JInt 1)]]
   \<and> find (\<lambda>p s. Inr True)
        \<lparr>docs = [[(''_id'', JStr ''1''), (''a'', JStr ''None'')], [(''_id'', JStr ''2'')]],
         indexes = []\<rparr> [(''a'', JNull)]
     = Inr [[(''_id'', JStr ''2'')]]
   \<and> create_index
        \<lparr>docs = [[(''_id'', JStr ''1''), (''a'', JStr ''None'')], [(''_id'', JStr ''2'')]],
         indexes = []\<rparr> ''a''
     = Inr \<lparr>docs = [[(''_id'', JStr ''1''), (''a'', JStr ''None'')], [(''_id'', JStr ''2'')]],
            indexes = [(''a'', [(''None'', [JStr ''1''])])]\<rparr>
   \<and> find (\<lambda>p s. Inr True)
        \<lparr>docs = [[(''_id'', JStr ''1''), (''a'', JStr ''None'')], [(''_id'', JStr ''2'')]],
         indexes = [(''a'', [(''None'', [JStr ''1''])])]\<rparr> [(''a'', JNull)]
     = Inr []"
proof -
  have g: "get_nested_value [(''_id'', JStr ''1''), (''a'', JBool True)] ''a'' = JBool True"
    "get_nested_value [(''_id'', JStr ''2''), (''a'', JInt 1)] ''a'' = JInt 1"
    "get_nested_value [(''_id'', JStr ''1''), (''a'', JStr ''None'')] ''a'' = JStr ''None''"
    "get_nested_value [(''_id'', JStr ''2'')] ''a'' = JNull"
    by (simp_all add: get_nested_value_def)
  show ?thesis
    by (simp add: find_def candidates_def query_using_indexes_def create_index_def
        update_index_def g has_key_def py_mem_def py_str_examples Let_def)
qed

section \<open>The index invariant under the mutating operations\<close>

lemma update_index_needs_id:
  assumes "update_index d f ix = Inr ix'" "get_nested_value d f \<noteq> JNull"
  obtains i where "map_of d ''_id'' = Some i"
  using assms by (cases "map_of d ''_id''") (auto simp: update_index_def Let_def)

lemma update_index_grows:
  assumes "update_index d f ix = Inr ix'" "map_of ix s = Some b"
  shows "\<exists>b'. map_of ix' s = Some b' \<and> (\<forall>i. py_mem i b \<longrightarrow> py_mem i b')"
proof (cases "get_nested_value d f = JNull")
  case True
  with assms show ?thesis by (simp add: update_index_null)
next
  case False
  from update_index_needs_id [OF assms(1) False] obtain i where i: "map_of d ''_id'' = Some i" .
  let ?s = "py_str (get_nested_value d f)"
  show ?thesis
  proof (cases "map_of ix ?s")
    case None
    with assms(1) have "ix' = dict_set ?s [i] (dict_set ?s [] ix)"
      by (simp add: update_index_unfold [OF i False])
    moreover from None assms(2) have "s \<noteq> ?s" by auto
    ultimately show ?thesis using assms(2) by (simp add: map_of_dict_set)
  next
    case (Some b0)
    with assms(1) have "ix' = (if py_mem i b0 then ix else dict_set ?s (b0 @ [i]) ix)"
      by (simp add: update_index_unfold [OF i False])
    with assms(2) Some show ?thesis
      by (cases "s = ?s") (auto simp: map_of_dict_set py_mem_append)
  qed
qed

lemma update_index_entry:
  assumes "update_index d f ix = Inr ix'"
  shows "entry_ok d f ix'"
proof (cases "get_nested_value d f = JNull")
  case True
  then show ?thesis by (simp add: entry_ok_def)
next
  case False
  from update_index_needs_id [OF assms False] obtain i where i: "map_of d ''_id'' = Some i" .
  from update_index_adds [OF i False assms] i show ?thesis
    by (auto simp: entry_ok_def)
qed

lemma update_index_keeps_entry:
  assumes "update_index d' f ix = Inr ix'" "entry_ok d f ix"
  shows "entry_ok d f ix'"
proof (cases "get_nested_value d f = JNull")
  case True
  then show ?thesis by (simp add: entry_ok_def)
next
  case False
  with assms(2) obtain i b where
    e: "map_of d ''_id'' = Some i" "map_of ix (py_str (get_nested_value d f)) = Some b" "py_mem i b"
    by (auto simp: entry_ok_def split: option.splits)
  from update_index_grows [OF assms(1) e(2)] e(1,3) show ?thesis
    by (auto simp: entry_ok_def)
qed

lemma update_indexes_entries:
  "update_indexes d idx = Inr idx' \<Longrightarrow> list_all (\<lambda>(f, ix). entry_ok d f ix) idx'"
proof (induction idx arbitrary: idx')
  case Nil
  then show ?case by simp
next
  case (Cons p idx)
  obtain f ix where p: "p = (f, ix)" by (cases p)
  from Cons.prems p obtain ix' rest' where
    s: "update_index d f ix = Inr ix'" "update_indexes d idx = Inr rest'" "idx' = (f, ix') # rest'"
    by (auto split: sum.splits)
  from update_index_entry [OF s(1)] Cons.IH [OF s(2)] s(3) show ?case by simp
qed

lemma update_indexes_keeps_entries:
  "update_indexes d' idx = Inr idx' \<Longrightarrow> list_all (\<lambda>(f, ix). entry_ok d f ix) idx \<Longrightarrow>
   list_all (\<lambda>(f, ix). entry_ok d f ix) idx'"
proof (induction idx arbitrary: idx')
  case Nil
  then show ?case by simp
next
  case (Cons p idx)
  obtain f ix where p: "p = (f, ix)" by (cases p)
  from Cons.prems(1) p obtain ix' rest' where
    s: "update_index d' f ix = Inr ix'" "update_indexes d' idx = Inr rest'" "idx' = (f, ix') # rest'"
    by (auto split: sum.splits)
  from Cons.prems(2) p have e: "entry_ok d f ix" "list_all (\<lambda>(f, ix). entry_ok d f ix) idx"
    by simp_all
  from update_index_keeps_entry [OF s(1) e(1)] Cons.IH [OF s(2) e(2)] s(3) show ?case by simp
qed

lemma complete_for_keeps:
  assumes "update_indexes d idx = Inr idx'" "complete_for data idx"
  shows "complete_for data idx'"
  unfolding complete_for_def list_all_iff
proof
  fix x assume "x \<in> set data"
  with assms(2) have "list_all (\<lambda>(f, ix). entry_ok x f ix) idx"
    by (simp add: complete_for_def list_all_iff)
  from update_indexes_keeps_entries [OF assms(1) this]
  show "\<forall>p \<in> set idx'. case p of (f, ix) \<Rightarrow> entry_ok x f ix"
    by (simp add: list_all_iff)
qed

lemma complete_for_append:
  "complete_for (xs @ ys) idx = (complete_for xs idx \<and> complete_for ys idx)"
  by (simp add: complete_for_def)

lemma complete_for_step:
  assumes "update_indexes d idx = Inr idx'" "complete_for data idx"
  shows "complete_for (data @ [d]) idx'"
  using complete_for_keeps [OF assms] update_indexes_entries [OF assms(1)]
  by (simp add: complete_for_append) (simp add: complete_for_def)

lemma update_indexes_all_complete:
  "update_indexes_all data idx = Inr idx' \<Longrightarrow> complete_for pre idx \<Longrightarrow>
   complete_for (pre @ data) idx'"
proof (induction data arbitrary: pre idx)
  case Nil
  then show ?case by simp
next
  case (Cons d data)
  from Cons.prems(1) obtain idx1 where
    s: "update_indexes d idx = Inr idx1" "update_indexes_all data idx1 = Inr idx'"
    by (auto split: sum.splits)
  from Cons.IH [OF s(2) complete_for_step [OF s(1) Cons.prems(2)]] show ?case by simp
qed

lemma update_loop_complete:
  "update_loop rs q updates data idx = Inr (data', idx') \<Longrightarrow>
   complete_for pre idx \<Longrightarrow> complete_for data idx \<Longrightarrow> complete_for (pre @ data') idx'"
proof (induction data arbitrary: pre idx data' idx')
  case Nil
  then show ?case by simp
next
  case (Cons d data)
  from Cons.prems(3) have rest: "complete_for [d] idx" "complete_for data idx"
    by (simp_all add: complete_for_def)
  from Cons.prems(1) obtain m where m: "match rs d q = Inr m"
    by (auto split: sum.splits)
  show ?case
  proof (cases m)
    case True
    let ?d = "dict_update d updates"
    from Cons.prems(1) m True obtain idx1 rest' where
      s: "update_indexes ?d idx = Inr idx1" "update_loop rs q updates data idx1 = Inr (rest', idx')"
        "data' = ?d # rest'"
      by (auto simp: Let_def split: sum.splits prod.splits)
    from Cons.IH [OF s(2) complete_for_step [OF s(1) Cons.prems(2)]
        complete_for_keeps [OF s(1) rest(2)]] s(3)
    show ?thesis by simp
  next
    case False
    from Cons.prems(1) m False obtain rest' where
      s: "update_loop rs q updates data idx = Inr (rest', idx')" "data' = d # rest'"
      by (auto split: sum.splits prod.splits)
    have "complete_for (pre @ [d]) idx"
      using Cons.prems(2) rest(1) by (simp add: complete_for_append)
    from Cons.IH [OF s(1) this rest(2)] s(2) show ?thesis by simp
  qed
qed

text \<open>
  What the code keeps of the index invariant: every public mutating operation that
  returns leaves every index complete (the id of a document with a non-null value at an
  indexed field is in the bucket of that value). \<^verbatim>\<open>delete\<close> and \<^verbatim>\<open>create_index\<close> establish
  it from any state.
\<close>

lemma index_complete_kept:
  "index_complete c \<Longrightarrow> insert_one i c d = Inr (c', d') \<Longrightarrow> index_complete c'"
  "index_complete c \<Longrightarrow> update rs c q updates = Inr c' \<Longrightarrow> index_complete c'"
  "delete rs c q = Inr c' \<Longrightarrow> index_complete c'"
  "create_index c field = Inr c' \<Longrightarrow> index_complete c'"
proof -
  show "index_complete c'" if "index_complete c" "insert_one i c d = Inr (c', d')"
  proof -
    from that(2) have "docs c' = docs c @ [d']" "update_indexes d' (indexes c) = Inr (indexes c')"
      by (auto simp: insert_one_def Let_def split: sum.splits)
    with complete_for_step [of d' "indexes c" "indexes c'" "docs c"] that(1)
    show ?thesis by (simp add: index_complete_def)
  qed
  show "index_complete c'" if "index_complete c" "update rs c q updates = Inr c'"
  proof -
    from that(2) have "update_loop rs q updates (docs c) (indexes c) = Inr (docs c', indexes c')"
      by (auto simp: update_def split: sum.splits)
    from update_loop_complete [OF this, of "[]"] that(1)
    show ?thesis by (simp add: index_complete_def complete_for_def)
  qed
  show "index_complete c'" if "delete rs c q = Inr c'"
  proof -
    from that have "rebuild_indexes (indexes c) (docs c') = Inr (indexes c')"
      by (auto simp: delete_def split: sum.splits)
    from update_indexes_all_complete [OF this [unfolded rebuild_indexes_def], of "[]"]
    show ?thesis by (simp add: index_complete_def complete_for_def)
  qed
  show "index_complete c'" if "create_index c field = Inr c'"
  proof -
    from that have "update_indexes_all (docs c') (dict_set field [] (indexes c)) = Inr (indexes c')"
      by (auto simp: create_index_def split: sum.splits)
    from update_indexes_all_complete [OF this, of "[]"]
    show ?thesis by (simp add: index_complete_def complete_for_def)
  qed
qed

text \<open>
  Claim C2. Every index is to be correct again after each mutating operation, and after
  an \<^verbatim>\<open>update\<close> that changes an indexed value the id is to be gone from the old bucket.
  \<^verbatim>\<open>update\<close> only adds: starting from the index that \<^verbatim>\<open>create_index\<close> builds (complete and
  exact), it leaves the id under the old value \<^verbatim>\<open>"x"\<close> beside the new \<^verbatim>\<open>"y"\<close>; the index is
  still complete and no longer exact.
\<close>

theorem update_leaves_stale_id:
  "create_index \<lparr>docs = [[(''_id'', JStr ''1''), (''a'', JStr ''x'')]], indexes = []\<rparr> ''a''
     = Inr \<lparr>docs = [[(''_id'', JStr ''1''), (''a'', JStr ''x'')]],
            indexes = [(''a'', [(''x'', [JStr ''1''])])]\<rparr>
   \<and> index_complete \<lparr>docs = [[(''_id'', JStr ''1''), (''a'', JStr ''x'')]],
                      indexes = [(''a'', [(''x'', [JStr ''1''])])]\<rparr>
   \<and> index_exact \<lparr>docs = [[(''_id'', JStr ''1''), (''a'', JStr ''x'')]],
                   indexes = [(''a'', [(''x'', [JStr ''1''])])]\<rparr>
   \<and> update (\<lambda>p s. Inr True)
        \<lparr>docs = [[(''_id'', JStr ''1''), (''a'', JStr ''x'')]],
         indexes = [(''a'', [(''x'', [JStr ''1''])])]\<rparr>
        [(''_id'', JStr ''1'')] [(''a'', JStr ''y'')]
     = Inr \<lparr>docs = [[(''_id'', JStr ''1''), (''a'', JStr ''y'')]],
            indexes = [(''a'', [(''x'', [JStr ''1'']), (''y'', [JStr ''1''])])]\<rparr>
   \<and> index_complete \<lparr>docs = [[(''_id'', JStr ''1''), (''a'', JStr ''y'')]],
                      indexes = [(''a'', [(''x'', [JStr ''1'']), (''y'', [JStr ''1''])])]\<rparr>
   \<and> \<not> index_exact \<lparr>docs = [[(''_id'', JStr ''1''), (''a'', JStr ''y'')]],
                     indexes = [(''a'', [(''x'', [JStr ''1'']), (''y'', [JStr ''1''])])]\<rparr>"
proof -
  have g: "get_nested_value [(''_id'', JStr ''1''), (''a'', JStr ''x'')] ''a'' = JStr ''x''"
    "get_nested_value [(''_id'', JStr ''1''), (''a'', JStr ''y'')] ''a'' = JStr ''y''"
    by (simp_all add: get_nested_value_def)
  show ?thesis
    by (simp add: create_index_def update_def update_index_def g has_key_def py_mem_def
        py_str_def Let_def index_complete_def complete_for_def entry_ok_def index_exact_def)
qed

section \<open>Insertion and lookup by id\<close>

lemma uuid_like_head:
  assumes "uuid_like i"
  obtains ch cs where "i = ch # cs" "ch \<in> set ''0123456789abcdef''"
proof -
  from assms have l: "length i = 36" by (simp add: uuid_like_def)
  then obtain ch cs where i: "i = ch # cs" by (cases i) auto
  have "[0..<36] = 0 # [1..<36]" by (simp add: upt_conv_Cons)
  with assms i have "ch \<in> set ''0123456789abcdef''"
    by (simp add: uuid_like_def)
  with i that show ?thesis by blast
qed

lemma py_str_unhashable:
  assumes "\<not> hashable j"
  obtains cs where "py_str j = CHR ''['' # cs \<or> py_str j = CHR ''{'' # cs"
  using assms by (cases j) (auto simp: py_str_def)

lemma uuid_like_hashable:
  assumes "uuid_like i" "py_str j = i"
  shows "hashable j"
proof (rule ccontr)
  assume "\<not> hashable j"
  from py_str_unhashable [OF this] obtain cs where
    "py_str j = CHR ''['' # cs \<or> py_str j = CHR ''{'' # cs" .
  moreover from uuid_like_head [OF assms(1)] obtain ch cs' where
    "i = ch # cs'" "ch \<in> set ''0123456789abcdef''" .
  ultimately show False using assms(2) by auto
qed

lemma get_nested_value_of_id:
  "map_of d ''_id'' = Some j \<Longrightarrow>
   get_nested_value d ''_id'' = JNull \<or> get_nested_value d ''_id'' = j"
  by (simp add: get_nested_value_def)

lemma keys_match_dict_set:
  "keys_match ix \<Longrightarrow> list_all (\<lambda>j. py_str j = s) b \<Longrightarrow> keys_match (dict_set s b ix)"
  using set_dict_set [of s b ix] by (auto simp: keys_match_def list_all_iff)

lemma keys_match_bucket:
  "keys_match ix \<Longrightarrow> map_of ix s = Some b \<Longrightarrow> list_all (\<lambda>j. py_str j = s) b"
  by (auto simp: keys_match_def list_all_iff dest!: map_of_SomeD)

lemma update_index_keys_match:
  assumes "keys_match ix" "update_index d ''_id'' ix = Inr ix'"
  shows "keys_match ix'"
proof (cases "get_nested_value d ''_id'' = JNull")
  case True
  with assms show ?thesis by (simp add: update_index_null)
next
  case False
  from update_index_needs_id [OF assms(2) False] obtain j where j: "map_of d ''_id'' = Some j" .
  with False have g: "get_nested_value d ''_id'' = j"
    using get_nested_value_of_id [OF j] by simp
  show ?thesis
  proof (cases "map_of ix (py_str j)")
    case None
    with assms(2) have "ix' = dict_set (py_str j) [j] (dict_set (py_str j) [] ix)"
      using update_index_unfold [OF j False, of ix, unfolded g] by simp
    with assms(1) show ?thesis by (simp add: keys_match_dict_set)
  next
    case (Some b)
    with assms(2) have "ix' = (if py_mem j b then ix else dict_set (py_str j) (b @ [j]) ix)"
      using update_index_unfold [OF j False, of ix, unfolded g] by simp
    moreover have "list_all (\<lambda>x. py_str x = py_str j) b"
      using assms(1) Some by (rule keys_match_bucket)
    ultimately show ?thesis using assms(1) by (simp add: keys_match_dict_set)
  qed
qed

lemma id_index_sound_Cons:
  "id_index_sound ((f, ix) # idx) = ((f = ''_id'' \<longrightarrow> keys_match ix) \<and> id_index_sound idx)"
  by (simp add: id_index_sound_def)

lemma update_indexes_sound:
  "id_index_sound idx \<Longrightarrow> update_indexes d idx = Inr idx' \<Longrightarrow> id_index_sound idx'"
proof (induction idx arbitrary: idx')
  case Nil
  then show ?case by simp
next
  case (Cons p idx)
  obtain f ix where p: "p = (f, ix)" by (cases p)
  from Cons.prems(2) p obtain ix' rest' where
    s: "update_index d f ix = Inr ix'" "update_indexes d idx = Inr rest'" "idx' = (f, ix') # rest'"
    by (auto split: sum.splits)
  from Cons.prems(1) p have h: "f = ''_id'' \<longrightarrow> keys_match ix" "id_index_sound idx"
    by (simp_all add: id_index_sound_Cons)
  have "f = ''_id'' \<longrightarrow> keys_match ix'"
    using h(1) s(1) by (auto intro: update_index_keys_match)
  with Cons.IH [OF h(2) s(2)] s(3) show ?case by (simp add: id_index_sound_Cons)
qed

lemma update_indexes_all_sound:
  "id_index_sound idx \<Longrightarrow> update_indexes_all data idx = Inr idx' \<Longrightarrow> id_index_sound idx'"
proof (induction data arbitrary: idx)
  case Nil
  then show ?case by simp
next
  case (Cons d data)
  from Cons.prems(2) obtain idx1 where
    s: "update_indexes d idx = Inr idx1" "update_indexes_all data idx1 = Inr idx'"
    by (auto split: sum.splits)
  from Cons.IH [OF update_indexes_sound [OF Cons.prems(1) s(1)] s(2)] show ?case .
qed

lemma update_loop_sound:
  "id_index_sound idx \<Longrightarrow> update_loop rs q updates data idx = Inr (data', idx') \<Longrightarrow>
   id_index_sound idx'"
proof (induction data arbitrary: idx data')
  case Nil
  then show ?case by simp
next
  case (Cons d data)
  from Cons.prems(2) obtain m where m: "match rs d q = Inr m"
    by (auto split: sum.splits)
  show ?case
  proof (cases m)
    case True
    from Cons.prems(2) m True obtain idx1 rest' where
      s: "update_indexes (dict_update d updates) idx = Inr idx1"
        "update_loop rs q updates data idx1 = Inr (rest', idx')"
      by (auto simp: Let_def split: sum.splits prod.splits)
    from Cons.IH [OF update_indexes_sound [OF Cons.prems(1) s(1)] s(2)] show ?thesis .
  next
    case False
    from Cons.prems(2) m False obtain rest' where
      "update_loop rs q updates data idx = Inr (rest', idx')"
      by (auto split: sum.splits prod.splits)
    from Cons.IH [OF Cons.prems(1) this] show ?thesis .
  qed
qed

lemma cleared_sound: "id_index_sound (map (\<lambda>(key, ix). (key, [])) idx)"
  by (induction idx) (auto simp: id_index_sound_def keys_match_def)

lemma dict_set_sound:
  "id_index_sound idx \<Longrightarrow> id_index_sound (dict_set field [] idx)"
  by (induction idx) (auto simp: id_index_sound_def keys_match_def)

lemma has_key_dict_set: "has_key d k \<Longrightarrow> has_key (dict_set k' v d) k"
  by (simp add: has_key_def map_of_dict_set)

lemma has_key_dict_update: "has_key d k \<Longrightarrow> has_key (dict_update d updates) k"
  by (induction updates arbitrary: d) (auto simp: has_key_dict_set)

lemma update_loop_has_ids:
  "has_ids data \<Longrightarrow> update_loop rs q updates data idx = Inr (data', idx') \<Longrightarrow> has_ids data'"
proof (induction data arbitrary: idx data')
  case Nil
  then show ?case by simp
next
  case (Cons d data)
  from Cons.prems(1) have h: "has_key d ''_id''" "has_ids data"
    by (simp_all add: has_ids_def)
  from Cons.prems(2) obtain m where m: "match rs d q = Inr m"
    by (auto split: sum.splits)
  show ?case
  proof (cases m)
    case True
    from Cons.prems(2) m True obtain idx1 rest' where
      s: "update_loop rs q updates data idx1 = Inr (rest', idx')"
        "data' = dict_update d updates # rest'"
      by (auto simp: Let_def split: sum.splits prod.splits)
    from Cons.IH [OF h(2) s(1)] has_key_dict_update [OF h(1)] s(2) show ?thesis
      by (simp add: has_ids_def)
  next
    case False
    from Cons.prems(2) m False obtain rest' where
      s: "update_loop rs q updates data idx = Inr (rest', idx')" "data' = d # rest'"
      by (auto split: sum.splits prod.splits)
    from Cons.IH [OF h(2) s(1)] h(1) s(2) show ?thesis
      by (simp add: has_ids_def)
  qed
qed

lemma insert_one_has_id:
  "insert_one i c d = Inr (c', d') \<Longrightarrow> has_key d' ''_id''"
  by (auto simp: insert_one_def Let_def has_key_def map_of_dict_set split: sum.splits if_splits)

text \<open>What holds in every reachable state.\<close>

lemma reachable_invariant:
  "reachable c \<Longrightarrow> has_ids (docs c) \<and> id_index_sound (indexes c)"
proof (induction rule: reachable.induct)
  case opened
  show ?case by (simp add: has_ids_def id_index_sound_def)
next
  case (inserted c new_id document c' document')
  from inserted.hyps(2) have
    s: "docs c' = docs c @ [document']" "update_indexes document' (indexes c) = Inr (indexes c')"
    by (auto simp: insert_one_def Let_def split: sum.splits)
  from insert_one_has_id [OF inserted.hyps(2)] inserted.IH s(1)
  have "has_ids (docs c')" by (simp add: has_ids_def)
  moreover from inserted.IH s(2) have "id_index_sound (indexes c')"
    by (auto intro: update_indexes_sound)
  ultimately show ?case ..
next
  case (updated c rs q updates c')
  from updated.hyps(2) have
    "update_loop rs q updates (docs c) (indexes c) = Inr (docs c', indexes c')"
    by (auto simp: update_def split: sum.splits)
  with updated.IH show ?case
    by (auto intro: update_loop_has_ids update_loop_sound)
next
  case (update_raised c rs q updates n data idx)
  then show ?case by (auto intro: update_loop_sound)
next
  case (deleted c rs q c')
  from deleted.hyps(2) obtain data where
    s: "filter_match rs False q (docs c) = Inr data" "docs c' = data"
      "rebuild_indexes (indexes c) data = Inr (indexes c')"
    by (auto simp: delete_def split: sum.splits)
  from filter_match_filter [OF s(1)] deleted.IH s(2) have "has_ids (docs c')"
    by (simp add: has_ids_def list_all_iff)
  moreover from s(3) have "id_index_sound (indexes c')"
    unfolding rebuild_indexes_def by (rule update_indexes_all_sound [OF cleared_sound])
  ultimately show ?case ..
next
  case (indexed c field c')
  from indexed.hyps(2) have
    s: "docs c' = docs c" "update_indexes_all (docs c) (dict_set field [] (indexes c)) = Inr (indexes c')"
    by (auto simp: create_index_def split: sum.splits)
  from indexed.IH have "id_index_sound (dict_set field [] (indexes c))"
    by (auto intro: dict_set_sound)
  from update_indexes_all_sound [OF this s(2)] indexed.IH s(1) show ?case by simp
qed

lemma get_nested_value_id:
  "map_of d ''_id'' = Some (JStr i) \<Longrightarrow> get_nested_value d ''_id'' = JStr i"
  by (simp add: get_nested_value_def)

lemma query_by_id:
  assumes "id_index_sound idx" "uuid_like i"
  shows "query_using_indexes idx [(''_id'', JStr i)] = Inr None \<or>
    (\<exists>ix bucket. map_of idx ''_id'' = Some ix \<and> map_of ix i = Some bucket \<and>
       query_using_indexes idx [(''_id'', JStr i)] = Inr (Some bucket))"
proof (cases "map_of idx ''_id''")
  case None
  then show ?thesis by (simp add: query_using_indexes_def)
next
  case (Some ix)
  then have "(''_id'', ix) \<in> set idx" by (rule map_of_SomeD)
  with assms(1) have km: "keys_match ix"
    by (auto simp: id_index_sound_def list_all_iff)
  show ?thesis
  proof (cases "map_of ix i")
    case None
    with Some show ?thesis
      by (simp add: query_using_indexes_def has_key_def py_str_def)
  next
    case (Some bucket)
    from keys_match_bucket [OF km Some] have "list_all hashable bucket"
      by (auto simp: list_all_iff intro: uuid_like_hashable [OF assms(2)])
    with Some \<open>map_of idx ''_id'' = Some ix\<close> show ?thesis
      by (simp add: query_using_indexes_def has_key_def py_str_def)
  qed
qed

text \<open>
  Claim C9. Round trip: in any reachable state, a document \<open>d\<close> without \<^verbatim>\<open>_id\<close> is inserted
  and gets the generated id \<open>i\<close>, an id of uuid shape that no stored document has; then
  \<^verbatim>\<open>find_one({"_id": i})\<close> returns \<open>d\<close> extended with the field \<^verbatim>\<open>_id\<close> set to \<open>i\<close>.
\<close>

theorem insert_then_find_one_round_trip:
  assumes state: "reachable c"
    and noid: "\<not> has_key d ''_id''"
    and uuid: "uuid_like i"
    and fresh: "id_unused i (docs c)"
  shows "\<exists>c'. insert_one i c d = Inr (c', d @ [(''_id'', JStr i)]) \<and>
    find_one rs c' [(''_id'', JStr i)] = Inr (Some (d @ [(''_id'', JStr i)]))"
proof -
  let ?d = "d @ [(''_id'', JStr i)]"
  let ?q = "[(''_id'', JStr i)]"
  from reachable_invariant [OF state] have ids: "has_ids (docs c)"
    and sound: "id_index_sound (indexes c)" by simp_all
  from noid have dn: "map_of d ''_id'' = None" by (simp add: has_key_def)
  then have ds: "dict_set ''_id'' (JStr i) d = ?d" by (rule dict_set_new)
  have did: "map_of ?d ''_id'' = Some (JStr i)"
    using dn by (simp add: map_add_def)
  from update_indexes_Inr [OF did] obtain idx' where
    up: "update_indexes ?d (indexes c) = Inr idx'" by blast
  let ?c = "\<lparr>docs = docs c @ [?d], indexes = idx'\<rparr>"
  have ins: "insert_one i c d = Inr (?c, ?d)"
    using noid ds up by (simp add: insert_one_def Let_def)
  have sound': "id_index_sound idx'"
    using sound up by (rule update_indexes_sound)
  have ids': "has_ids (docs c @ [?d])"
    using ids did by (simp add: has_ids_def has_key_def)
  have others: "\<forall>x \<in> set (docs c). match rs x ?q = Inr False"
    using fresh by (simp add: id_unused_def list_all_iff match_by_id del: match.simps)
  have new: "match rs ?d ?q = Inr True"
    using did by (simp only: match_by_id) simp
  have "\<exists>xs. candidates ?c ?q = Inr (xs @ [?d]) \<and> set xs \<subseteq> set (docs c)"
    using query_by_id [OF sound' uuid]
  proof
    assume "query_using_indexes idx' ?q = Inr None"
    then show ?thesis by (simp add: candidates_def)
  next
    assume "\<exists>ix bucket. map_of idx' ''_id'' = Some ix \<and> map_of ix i = Some bucket \<and>
       query_using_indexes idx' ?q = Inr (Some bucket)"
    then obtain ix bucket where
      b: "map_of idx' ''_id'' = Some ix" "map_of ix i = Some bucket"
        "query_using_indexes idx' ?q = Inr (Some bucket)"
      by blast
    from b(1) obtain ix0 where ix0: "update_index ?d ''_id'' ix0 = Inr ix"
      unfolding update_indexes_map_of [OF up]
      by (auto split: option.splits sum.splits)
    have g: "get_nested_value ?d ''_id'' = JStr i"
      using did by (rule get_nested_value_id)
    from update_index_adds [OF did _ ix0] g b(2)
    have mem: "py_mem (JStr i) bucket" by (simp add: py_str_def)
    have "candidates ?c ?q =
        Inr (filter (\<lambda>d. case map_of d ''_id'' of None \<Rightarrow> False | Some j \<Rightarrow> py_mem j bucket)
               (docs c) @ [?d])"
      using b(3) mem dn
      by (simp add: candidates_def filter_ids_has_ids [OF ids'] map_add_def)
    then show ?thesis by auto
  qed
  then obtain xs where xs: "candidates ?c ?q = Inr (xs @ [?d])" "set xs \<subseteq> set (docs c)"
    by blast
  from xs(2) others have "\<forall>x \<in> set xs. match rs x ?q = Inr False" by blast
  from first_match_last [OF this new] xs(1)
  have "find_one rs ?c ?q = Inr (Some ?d)" by (simp add: find_one_def)
  with ins show ?thesis by blast
qed

theorem insert_then_find_one_round_trip_witness:
  "reachable \<lparr>docs = [[(''name'', JStr ''Bob''), (''_id'', JStr ''x'')]],
              indexes = [(''_id'', [(''x'', [JStr ''x''])])]\<rparr>
   \<and> \<not> has_key [(''name'', JStr ''Alice'')] ''_id''
   \<and> uuid_like ''123e4567-e89b-42d3-a456-426614174000''
   \<and> id_unused ''123e4567-e89b-42d3-a456-426614174000''
        [[(''name'', JStr ''Bob''), (''_id'', JStr ''x'')]]
   \<and> (\<exists>c'. insert_one ''123e4567-e89b-42d3-a456-426614174000''
              \<lparr>docs = [[(''name'', JStr ''Bob''), (''_id'', JStr ''x'')]],
               indexes = [(''_id'', [(''x'', [JStr ''x''])])]\<rparr>
              [(''name'', JStr ''Alice'')]
            = Inr (c', [(''name'', JStr ''Alice''),
                        (''_id'', JStr ''123e4567-e89b-42d3-a456-426614174000'')])
          \<and> find_one (\<lambda>p s. Inr True) c'
              [(''_id'', JStr ''123e4567-e89b-42d3-a456-426614174000'')]
            = Inr (Some [(''name'', JStr ''Alice''),
                         (''_id'', JStr ''123e4567-e89b-42d3-a456-426614174000'')]))"
proof -
  let ?bob = "[(''name'', JStr ''Bob''), (''_id'', JStr ''x'')]"
  let ?one = "\<lparr>docs = [?bob], indexes = []\<rparr>"
  let ?c = "\<lparr>docs = [?bob], indexes = [(''_id'', [(''x'', [JStr ''x''])])]\<rparr>"
  have "insert_one ''x'' \<lparr>docs = [], indexes = []\<rparr> [(''name'', JStr ''Bob'')] = Inr (?one, ?bob)"
    by (simp add: insert_one_def has_key_def Let_def)
  from reachable.inserted [OF reachable.opened this] have r1: "reachable ?one" .
  have g: "get_nested_value ?bob ''_id'' = JStr ''x''"
    by (simp add: get_nested_value_def)
  have "create_index ?one ''_id'' = Inr ?c"
    by (simp add: create_index_def update_index_def g has_key_def py_mem_def py_str_def Let_def)
  from reachable.indexed [OF r1 this] have r: "reachable ?c" .
  have n: "\<not> has_key [(''name'', JStr ''Alice'')] ''_id''"
    by (simp add: has_key_def)
  have u: "uuid_like ''123e4567-e89b-42d3-a456-426614174000''"
    by code_simp
  have f: "id_unused ''123e4567-e89b-42d3-a456-426614174000'' (docs ?c)"
    by (simp add: id_unused_def)
  from insert_then_find_one_round_trip [OF r n u f, of "\<lambda>p s. Inr True"] r n u f
  show ?thesis by simp
qed

end
